theory Spec2Isabelle
  imports Complex_Main
begin

section \<open>Errors\<close>

text \<open>
  Every exception the modelled code can raise is a value.  The names are the Python ones;
  the specification groups \<open>AttributeError\<close> and \<open>ValueError\<close> under its
  \<open>InvalidLocationError\<close>, calls a failing \<open>pa.hdfs.connect\<close>
  \<open>BackendUnavailableError\<close> and a failing \<open>hdfs.upload\<close> \<open>UploadError\<close>.
\<close>

datatype error =
    AttributeError      \<comment> \<open>\<open>match.group\<close> on \<open>None\<close>: the pattern did not match\<close>
  | ValueError          \<comment> \<open>raised by \<open>_check_url\<close>, or by \<open>int(port)\<close> on too many digits\<close>
  | ConnectError        \<comment> \<open>\<open>pa.hdfs.connect\<close> raised\<close>
  | OSError             \<comment> \<open>\<open>os.path.getmtime\<close>, \<open>tempfile.mkdtemp\<close> or \<open>shutil.rmtree\<close> raised\<close>
  | UploadError         \<comment> \<open>\<open>open(local_path)\<close> or \<open>hdfs.upload\<close> raised\<close>

section \<open>The regular expressions of Python's \<open>re\<close> that \<open>URL_PATTERN\<close> uses\<close>

text \<open>
  A Python string is modelled as a \<open>string\<close>, one \<open>char\<close> for each character.
  The matcher is the backtracking one of \<open>re\<close>: a greedy repetition tries the longest
  run first, an optional part is tried before it is skipped, and the first way of matching
  the whole pattern wins.  A continuation stands for the rest of the pattern.
\<close>

datatype cclass =
    AnyChar               \<comment> \<open>\<open>.\<close> (no DOTALL flag: every character but the newline)\<close>
  | Lit char              \<comment> \<open>a literal character\<close>
  | OneOf "char list"     \<comment> \<open>\<open>[...]\<close>\<close>
  | NoneOf "char list"    \<comment> \<open>\<open>[^...]\<close>\<close>
  | Between char char     \<comment> \<open>\<open>[a-b]\<close>\<close>

datatype regex =
    Atom cclass
  | Plus cclass           \<comment> \<open>\<open>c+\<close>, greedy\<close>
  | Seq regex regex
  | Opt regex             \<comment> \<open>\<open>(?:r)?\<close>, greedy\<close>
  | Group nat regex       \<comment> \<open>\<open>(r)\<close>, capturing group number \<open>n\<close>\<close>
  | Bol                   \<comment> \<open>\<open>^\<close> (no MULTILINE flag)\<close>
  | Eol                   \<comment> \<open>\<open>$\<close> (no MULTILINE flag)\<close>

definition newline :: char where
  "newline = CHR 0x0A"

fun cc_match :: "cclass \<Rightarrow> char \<Rightarrow> bool" where
  "cc_match AnyChar x = (x \<noteq> newline)"
| "cc_match (Lit c) x = (x = c)"
| "cc_match (OneOf cs) x = (x \<in> set cs)"
| "cc_match (NoneOf cs) x = (x \<notin> set cs)"
| "cc_match (Between lo hi) x = ((of_char lo :: nat) \<le> of_char x \<and> (of_char x :: nat) \<le> of_char hi)"

record mstate =
  pos :: nat                                  \<comment> \<open>index of the next character\<close>
  rest :: string                              \<comment> \<open>the characters from \<open>pos\<close> on\<close>
  marks :: "nat \<Rightarrow> (nat \<times> nat) option"        \<comment> \<open>start and end of each group that took part\<close>

fun greedy_plus :: "cclass \<Rightarrow> (nat \<Rightarrow> string \<Rightarrow> 'a option) \<Rightarrow> nat \<Rightarrow> string \<Rightarrow> 'a option" where
  "greedy_plus c k p [] = None"
| "greedy_plus c k p (x # xs) =
     (if cc_match c x
      then (case greedy_plus c k (Suc p) xs of
              Some r \<Rightarrow> Some r
            | None \<Rightarrow> k (Suc p) xs)
      else None)"

fun bt :: "regex \<Rightarrow> (mstate \<Rightarrow> 'a option) \<Rightarrow> mstate \<Rightarrow> 'a option" where
  "bt (Atom c) k s =
     (case rest s of
        [] \<Rightarrow> None
      | x # xs \<Rightarrow> if cc_match c x then k (s\<lparr>pos := Suc (pos s), rest := xs\<rparr>) else None)"
| "bt (Plus c) k s = greedy_plus c (\<lambda>p r. k (s\<lparr>pos := p, rest := r\<rparr>)) (pos s) (rest s)"
| "bt (Seq a b) k s = bt a (bt b k) s"
| "bt (Opt r) k s = (case bt r k s of Some m \<Rightarrow> Some m | None \<Rightarrow> k s)"
| "bt (Group n r) k s = bt r (\<lambda>s'. k (s'\<lparr>marks := (marks s')(n \<mapsto> (pos s, pos s'))\<rparr>)) s"
| "bt Bol k s = (if pos s = 0 then k s else None)"
| "bt Eol k s = (if rest s = [] \<or> rest s = [newline] then k s else None)"

text \<open>\<open>re.search\<close>: the leftmost start position at which the pattern matches.\<close>

fun search_from :: "regex \<Rightarrow> nat \<Rightarrow> string \<Rightarrow> mstate option" where
  "search_from r p [] = bt r Some \<lparr>pos = p, rest = [], marks = (\<lambda>_. None)\<rparr>"
| "search_from r p (x # xs) =
     (case bt r Some \<lparr>pos = p, rest = x # xs, marks = (\<lambda>_. None)\<rparr> of
        Some m \<Rightarrow> Some m
      | None \<Rightarrow> search_from r (Suc p) xs)"

definition re_search :: "regex \<Rightarrow> string \<Rightarrow> mstate option" where
  "re_search r s = search_from r 0 s"

text \<open>\<open>match.group(n)\<close> and \<open>match.start(n)\<close>; a group that took no part gives
  \<open>None\<close> and \<open>-1\<close>.\<close>

definition group :: "string \<Rightarrow> mstate \<Rightarrow> nat \<Rightarrow> string option" where
  "group s m n = (case marks m n of None \<Rightarrow> None | Some (a, b) \<Rightarrow> Some (take (b - a) (drop a s)))"

definition start :: "mstate \<Rightarrow> nat \<Rightarrow> int" where
  "start m n = (case marks m n of None \<Rightarrow> - 1 | Some (a, b) \<Rightarrow> int a)"

section \<open>\<open>HDFSStore\<close>: the URL\<close>

definition FS_PREFIX :: string where
  "FS_PREFIX = ''hdfs://''"

text \<open>\<^verbatim>\<open>'^(?:(.+://))?(?:([^/:]+))?(?:[:]([0-9]+))?(?:(.+))?$'\<close>\<close>

definition URL_PATTERN :: regex where
  "URL_PATTERN =
     Seq Bol
    (Seq (Opt (Group 1 (Seq (Plus AnyChar)
                       (Seq (Atom (Lit CHR '':'')) (Seq (Atom (Lit CHR ''/'')) (Atom (Lit CHR ''/'')))))))
    (Seq (Opt (Group 2 (Plus (NoneOf ''/:''))))
    (Seq (Opt (Seq (Atom (OneOf '':'')) (Group 3 (Plus (Between CHR ''0'' CHR ''9'')))))
    (Seq (Opt (Group 4 (Plus AnyChar)))
         Eol))))"

text \<open>\<open>int(port)\<close> on a string of ASCII digits, the only strings group 3 can hold.
  Python's integers are unbounded, but the conversion from a string is not: \<open>int\<close> raises
  \<open>ValueError\<close> when the string has more digits than \<open>sys.get_int_max_str_digits()\<close>, which
  is 4300 unless the interpreter was started otherwise; leading zeros count.\<close>

definition int_max_str_digits :: nat where
  "int_max_str_digits = 4300"

definition int_of_digits :: "string \<Rightarrow> int" where
  "int_of_digits ds = foldl (\<lambda>a c. 10 * a + (int (of_char c) - 48)) 0 ds"

definition py_int_str :: "string \<Rightarrow> error + int" where
  "py_int_str ds = (if int_max_str_digits < length ds then Inl ValueError else Inr (int_of_digits ds))"

definition parse_url ::
  "string \<Rightarrow> error + (string option \<times> string option \<times> int option \<times> string option \<times> int)" where
  "parse_url url =
     (case re_search URL_PATTERN url of
        None \<Rightarrow> Inl AttributeError
      | Some match \<Rightarrow>
          (let prefix = group url match 1;
               host = group url match 2;
               port = group url match 3;
               path = group url match 4;
               path_offset = start match 4
           in case port of
                None \<Rightarrow> Inr (prefix, host, None, path, path_offset)
              | Some p \<Rightarrow>
                  (case py_int_str p of
                     Inl err \<Rightarrow> Inl err
                   | Inr n \<Rightarrow> Inr (prefix, host, Some n, path, path_offset))))"


section \<open>Python helpers\<close>

text \<open>Slices \<open>s[i:]\<close> and \<open>s[:i]\<close>; a negative index counts from the end.\<close>

definition slice_from :: "string \<Rightarrow> int \<Rightarrow> string" where
  "slice_from s i = (if i < 0 then drop (nat (int (length s) + i)) s else drop (nat i) s)"

definition slice_to :: "string \<Rightarrow> int \<Rightarrow> string" where
  "slice_to s i = (if i < 0 then take (nat (int (length s) + i)) s else take (nat i) s)"

text \<open>Truth values of an optional string and an optional integer, and \<open>a or b\<close>:
  \<open>None\<close>, the empty string and \<open>0\<close> are false.\<close>

definition truthy_str :: "string option \<Rightarrow> bool" where
  "truthy_str x = (case x of None \<Rightarrow> False | Some s \<Rightarrow> s \<noteq> [])"

definition truthy_int :: "int option \<Rightarrow> bool" where
  "truthy_int x = (case x of None \<Rightarrow> False | Some i \<Rightarrow> i \<noteq> 0)"

definition or_str :: "string option \<Rightarrow> string option \<Rightarrow> string option" where
  "or_str a b = (if truthy_str a then a else b)"

definition or_int :: "int option \<Rightarrow> int option \<Rightarrow> int option" where
  "or_int a b = (if truthy_int a then a else b)"

text \<open>\<open>a or d\<close> with a literal \<open>d\<close> on the right.\<close>

definition or_str_literal :: "string option \<Rightarrow> string \<Rightarrow> string" where
  "or_str_literal a d = (case a of None \<Rightarrow> d | Some s \<Rightarrow> if s \<noteq> [] then s else d)"

definition or_int_literal :: "int option \<Rightarrow> int \<Rightarrow> int" where
  "or_int_literal a d = (case a of None \<Rightarrow> d | Some i \<Rightarrow> if i \<noteq> 0 then i else d)"

text \<open>\<open>posixpath.join(a, b)\<close>.\<close>

definition os_path_join :: "string \<Rightarrow> string \<Rightarrow> string" where
  "os_path_join a b =
     (if b \<noteq> [] \<and> hd b = CHR ''/'' then b
      else if a = [] \<or> last a = CHR ''/'' then a @ b
      else a @ ''/'' @ b)"

text \<open>\<open>int(x)\<close> on a float truncates towards zero.  Every finite float is a rational
  number, and a modification time is finite.\<close>

definition py_int :: "rat \<Rightarrow> int" where
  "py_int x = (if 0 \<le> x then \<lfloor>x\<rfloor> else \<lceil>x\<rceil>)"

section \<open>The world outside\<close>

record hdfs_kwargs =
  kw_host :: string
  kw_port :: int
  kw_user :: "string option"
  kw_kerb_ticket :: "string option"
  kw_extra_conf :: "(string \<times> string) list option"

text \<open>The object \<open>pa.hdfs.connect\<close> returns; the number tells two connections apart.\<close>

datatype handle = HadoopFileSystem nat

text \<open>
  What one call of the code finds outside: whether and with which connection
  \<open>pa.hdfs.connect\<close> answers (\<open>None\<close>: it raises), what \<open>os.walk\<close> yields for a
  directory (it swallows the errors of listing), the modification time of a path
  (\<open>None\<close>: \<open>os.path.getmtime\<close> raises), and whether opening the local file and
  \<open>hdfs.upload\<close> of it to the remote path both go through.
\<close>

record env =
  connect :: "hdfs_kwargs \<Rightarrow> handle option"
  os_walk :: "string \<Rightarrow> (string \<times> string list \<times> string list) list"
  getmtime :: "string \<Rightarrow> rat option"
  upload_ok :: "string \<Rightarrow> string \<Rightarrow> bool"

text \<open>The calls made to the backend, in order, each with its outcome:
  \<open>Connect kwargs result\<close> and \<open>Upload hdfs_path local_path succeeded\<close>.\<close>

datatype event =
    Connect hdfs_kwargs "handle option"
  | Upload string string bool

section \<open>\<open>HDFSStore\<close>: construction\<close>

record HDFSStore =
  self_temp_dir :: "string option"
  self_url_prefix :: string
  self_hdfs_kwargs :: hdfs_kwargs
  self_hdfs :: handle

text \<open>\<open>_check_url\<close>; the \<open>print\<close> is left out.\<close>

definition check_url :: "string \<Rightarrow> string option \<Rightarrow> string option \<Rightarrow> error + unit" where
  "check_url url prefix path =
     (if prefix \<noteq> None \<and> prefix \<noteq> Some FS_PREFIX then Inl ValueError
      else if \<not> truthy_str path then Inl ValueError
      else Inr ())"

text \<open>\<open>_get_filesystem_fn\<close> returns a closure over \<open>hdfs_kwargs\<close>; the closure is its
  captured value, and \<open>call_factory\<close> is calling it.\<close>

definition get_filesystem_fn :: "hdfs_kwargs \<Rightarrow> hdfs_kwargs" where
  "get_filesystem_fn kwargs = kwargs"

definition call_factory :: "env \<Rightarrow> hdfs_kwargs \<Rightarrow> (error + handle) \<times> event list" where
  "call_factory e kwargs =
     (case connect e kwargs of
        None \<Rightarrow> (Inl ConnectError, [Connect kwargs None])
      | Some h \<Rightarrow> (Inr h, [Connect kwargs (Some h)]))"

text \<open>
  \<open>__init__\<close>.  The initialiser of the base class \<open>FilesystemStore\<close> is not part of the
  sources at hand; \<open>base_init\<close> stands for it and says whether it raises.  It runs last
  and is not handed the four attributes set here.
\<close>

definition init ::
  "env \<Rightarrow> (string \<Rightarrow> error option) \<Rightarrow> string \<Rightarrow> string option \<Rightarrow> int option \<Rightarrow>
   string option \<Rightarrow> string option \<Rightarrow> (string \<times> string) list option \<Rightarrow> string option \<Rightarrow>
   (error + HDFSStore) \<times> event list" where
  "init e base_init prefix_path host port user kerb_ticket extra_conf temp_dir =
     (case parse_url prefix_path of
        Inl err \<Rightarrow> (Inl err, [])
      | Inr (prefix, url_host, url_port, path, path_offset) \<Rightarrow>
          (case check_url prefix_path prefix path of
             Inl err \<Rightarrow> (Inl err, [])
           | Inr _ \<Rightarrow>
               (let url_prefix = (if truthy_str prefix then slice_to prefix_path path_offset
                                  else FS_PREFIX);
                    host' = or_str_literal (or_str host url_host) ''default'';
                    port' = or_int_literal (or_int port url_port) 0;
                    kwargs = \<lparr>kw_host = host', kw_port = port', kw_user = user,
                              kw_kerb_ticket = kerb_ticket, kw_extra_conf = extra_conf\<rparr>
                in case call_factory e (get_filesystem_fn kwargs) of
                     (Inl err, tr) \<Rightarrow> (Inl err, tr)
                   | (Inr h, tr) \<Rightarrow>
                       (case base_init prefix_path of
                          Some err \<Rightarrow> (Inl err, tr)
                        | None \<Rightarrow>
                            (Inr \<lparr>self_temp_dir = temp_dir, self_url_prefix = url_prefix,
                                  self_hdfs_kwargs = kwargs, self_hdfs = h\<rparr>, tr)))))"

definition path_prefix :: "HDFSStore \<Rightarrow> string" where
  "path_prefix self = self_url_prefix self"

definition get_filesystem :: "HDFSStore \<Rightarrow> handle" where
  "get_filesystem self = self_hdfs self"

definition filesystem_prefix :: string where
  "filesystem_prefix = FS_PREFIX"

section \<open>\<open>sync_fn\<close>\<close>

text \<open>\<open>SyncState\<close>: the cached connection and the ledger of uploads, from local path to
  the modification timestamp last uploaded.\<close>

record SyncState =
  fs :: "handle option"
  uploaded :: "string \<Rightarrow> int option"

text \<open>What the closure \<open>fn\<close> captures.\<close>

record sync_closure =
  state :: SyncState
  factory :: hdfs_kwargs
  hdfs_root_path :: string

text \<open>
  Modelled from the spec: \<open>FilesystemStore.get_run_path\<close> belongs to the base class, which
  is not part of the sources at hand.  The specification derives the remote root path of a
  run by joining the store's path prefix with \<open>run_id\<close>.
\<close>

definition get_run_path :: "string \<Rightarrow> string \<Rightarrow> string" where
  "get_run_path store_prefix run_id = os_path_join store_prefix run_id"

definition sync_fn :: "string \<Rightarrow> HDFSStore \<Rightarrow> string \<Rightarrow> sync_closure" where
  "sync_fn store_prefix self run_id =
     \<lparr>state = \<lparr>fs = None, uploaded = (\<lambda>_. None)\<rparr>,
      factory = get_filesystem_fn (self_hdfs_kwargs self),
      hdfs_root_path = get_run_path store_prefix run_id\<rparr>"

text \<open>
  The inner loop, \<open>for file in files\<close>.  The ledger is a dictionary changed in place, so
  what was written to it before an exception stays: the ledger is returned in every case,
  with the calls made and the exception, if any.
\<close>

fun sync_files ::
  "env \<Rightarrow> string \<Rightarrow> string \<Rightarrow> string list \<Rightarrow> (string \<Rightarrow> int option) \<Rightarrow>
   (string \<Rightarrow> int option) \<times> event list \<times> error option" where
  "sync_files e hdfs_dir local_dir [] ledger = (ledger, [], None)"
| "sync_files e hdfs_dir local_dir (file # files) ledger =
     (let local_path = os_path_join local_dir file in
      case getmtime e local_path of
        None \<Rightarrow> (ledger, [], Some OSError)
      | Some mtime \<Rightarrow>
          (let modified_ts = py_int mtime in
           if (case ledger local_path of
                 None \<Rightarrow> False
               | Some last_modified_ts \<Rightarrow> modified_ts \<le> last_modified_ts)
           then sync_files e hdfs_dir local_dir files ledger
           else
             (let hdfs_path = os_path_join hdfs_dir file in
              if upload_ok e hdfs_path local_path
              then (case sync_files e hdfs_dir local_dir files (ledger(local_path \<mapsto> modified_ts)) of
                      (ledger', tr, err) \<Rightarrow> (ledger', Upload hdfs_path local_path True # tr, err))
              else (ledger, [Upload hdfs_path local_path False], Some UploadError))))"

text \<open>The outer loop, \<open>for local_dir, dirs, files in os.walk(local_run_path)\<close>.\<close>

fun sync_dirs ::
  "env \<Rightarrow> string \<Rightarrow> nat \<Rightarrow> (string \<times> string list \<times> string list) list \<Rightarrow>
   (string \<Rightarrow> int option) \<Rightarrow> (string \<Rightarrow> int option) \<times> event list \<times> error option" where
  "sync_dirs e hdfs_root prefix [] ledger = (ledger, [], None)"
| "sync_dirs e hdfs_root prefix ((local_dir, dirs, files) # triples) ledger =
     (let hdfs_dir = os_path_join hdfs_root (drop prefix local_dir) in
      case sync_files e hdfs_dir local_dir files ledger of
        (ledger', tr, Some err) \<Rightarrow> (ledger', tr, Some err)
      | (ledger', tr, None) \<Rightarrow>
          (case sync_dirs e hdfs_root prefix triples ledger' of
             (ledger'', tr', err) \<Rightarrow> (ledger'', tr @ tr', err)))"

text \<open>One call \<open>fn(local_run_path)\<close> of the closure: the closure afterwards, the calls
  made to the backend and the exception the call ended with, if any.\<close>

definition fn :: "env \<Rightarrow> sync_closure \<Rightarrow> string \<Rightarrow> sync_closure \<times> event list \<times> error option" where
  "fn e c local_run_path =
     (case (case fs (state c) of
              None \<Rightarrow> call_factory e (factory c)
            | Some h \<Rightarrow> (Inr h, [])) of
        (Inl err, tr) \<Rightarrow> (c, tr, Some err)
      | (Inr hdfs, tr) \<Rightarrow>
          (let prefix = length local_run_path + 1 in
           case sync_dirs e (hdfs_root_path c) prefix (os_walk e local_run_path)
                  (uploaded (state c)) of
             (ledger, tr', err) \<Rightarrow>
               (c\<lparr>state := \<lparr>fs = Some hdfs, uploaded = ledger\<rparr>\<rparr>, tr @ tr', err)))"

text \<open>A session: the calls of one closure, one after the other, each in the world it
  finds; an exception ends one call and not the session.\<close>

fun session :: "(env \<times> string) list \<Rightarrow> sync_closure \<Rightarrow> sync_closure \<times> event list" where
  "session [] c = (c, [])"
| "session ((e, local_run_path) # calls) c =
     (case fn e c local_run_path of
        (c', tr, err) \<Rightarrow> (case session calls c' of (c'', tr') \<Rightarrow> (c'', tr @ tr')))"

section \<open>\<open>os.walk\<close> on a directory tree\<close>

text \<open>A directory holds entries: files and directories, each with its name.  \<open>os.walk\<close>
  (top down, not following links) yields the directory with the names of its
  subdirectories and of its other entries, then walks each subdirectory in turn.\<close>

datatype node = File string | Dir string "node list"

fun dir_names :: "node list \<Rightarrow> string list" where
  "dir_names [] = []"
| "dir_names (File n # es) = dir_names es"
| "dir_names (Dir n sub # es) = n # dir_names es"

fun file_names :: "node list \<Rightarrow> string list" where
  "file_names [] = []"
| "file_names (File n # es) = n # file_names es"
| "file_names (Dir n sub # es) = file_names es"

fun walk :: "string \<Rightarrow> node list \<Rightarrow> (string \<times> string list \<times> string list) list" where
  "walk top_dir es =
     (top_dir, dir_names es, file_names es) #
     concat (map (\<lambda>x. case x of File n \<Rightarrow> [] | Dir n sub \<Rightarrow> walk (os_path_join top_dir n) sub) es)"

declare walk.simps [simp del]

text \<open>A name of a directory entry is not empty and holds no separator.\<close>

definition valid_name :: "string \<Rightarrow> bool" where
  "valid_name n = (n \<noteq> [] \<and> CHR ''/'' \<notin> set n)"

fun valid_node :: "node \<Rightarrow> bool" where
  "valid_node (File n) = valid_name n"
| "valid_node (Dir n sub) = (valid_name n \<and> list_all valid_node sub)"

text \<open>\<open>has_file es ds f\<close>: below the directories \<open>ds\<close>, from the entries \<open>es\<close> down, there
  is a file named \<open>f\<close>.\<close>

fun has_file :: "node list \<Rightarrow> string list \<Rightarrow> string \<Rightarrow> bool" where
  "has_file es [] f = (f \<in> set (file_names es))"
| "has_file es (d # ds) f =
     list_ex (\<lambda>x. case x of File n \<Rightarrow> False | Dir n sub \<Rightarrow> n = d \<and> has_file sub ds f) es"

text \<open>The relative path \<open>/d1/.../dk/f\<close> of a file, with its leading separator.\<close>

definition rel_path :: "string list \<Rightarrow> string" where
  "rel_path ns = concat (map (\<lambda>n. CHR ''/'' # n) ns)"

section \<open>\<open>get_local_output_dir_fn\<close>\<close>

text \<open>
  The local file system is the set of the paths that exist.  \<open>tempfile.mkdtemp\<close> makes
  its directory in the parent \<open>dir\<close>, or in \<open>gettempdir\<close> when \<open>dir\<close> is \<open>None\<close>, and
  raises when the parent does not exist; it tries the candidate names it draws, here
  \<open>names\<close>, makes the first directory that does not exist yet, and raises when all exist.
\<close>

definition mkdtemp ::
  "string \<Rightarrow> string list \<Rightarrow> string option \<Rightarrow> string set \<Rightarrow> error + (string \<times> string set)" where
  "mkdtemp gettempdir names dir files =
     (let parent = (case dir of None \<Rightarrow> gettempdir | Some d \<Rightarrow> d) in
      if parent \<notin> files then Inl OSError
      else case find (\<lambda>n. os_path_join parent (''tmp'' @ n) \<notin> files) names of
             None \<Rightarrow> Inl OSError
           | Some n \<Rightarrow> Inr (os_path_join parent (''tmp'' @ n),
                            insert (os_path_join parent (''tmp'' @ n)) files))"

definition below :: "string \<Rightarrow> string \<Rightarrow> bool" where
  "below dir p = (take (length dir + 1) p = dir @ ''/'')"

text \<open>
  \<open>shutil.rmtree(dirpath)\<close> removes what is below the directory, entry by entry, and the
  directory last.  It raises when the directory is not there.  It also raises, and stops,
  at the first entry that the system does not let it remove: the directory itself is then
  still there.  Whether that happens is up to the world: \<open>stops dirpath files\<close> is \<open>None\<close>
  when every entry can be removed, and \<open>Some removed\<close> when the removal of some entry
  raises, \<open>removed\<close> being the entries removed before.  The result is the exception, if
  any, and the file system afterwards.
\<close>

definition rmtree ::
  "(string \<Rightarrow> string set \<Rightarrow> string set option) \<Rightarrow> string \<Rightarrow> string set \<Rightarrow> error option \<times> string set" where
  "rmtree stops dirpath files =
     (if dirpath \<notin> files then (Some OSError, files)
      else case stops dirpath files of
             Some removed \<Rightarrow> (Some OSError, {p \<in> files. \<not> (below dirpath p \<and> p \<in> removed)})
           | None \<Rightarrow> (None, {p \<in> files. p \<noteq> dirpath \<and> \<not> below dirpath p}))"

text \<open>
  \<open>with local_run_path() as dirpath: body\<close>.  The body is any code: it is handed the
  directory and the file system, and returns the file system with its value or its
  exception.  The \<open>finally\<close> runs in both cases, and an exception of \<open>rmtree\<close> takes the
  place of the body's outcome.  When \<open>mkdtemp\<close> raises, the body is not entered.
\<close>

definition local_run_path ::
  "string option \<Rightarrow> string \<Rightarrow> string list \<Rightarrow> (string \<Rightarrow> string set \<Rightarrow> string set option) \<Rightarrow>
   (string \<Rightarrow> string set \<Rightarrow> string set \<times> (error + 'a)) \<Rightarrow>
   string set \<Rightarrow> string set \<times> (error + 'a)" where
  "local_run_path temp_dir gettempdir names stops body files =
     (case mkdtemp gettempdir names temp_dir files of
        Inl err \<Rightarrow> (files, Inl err)
      | Inr (dirpath, files1) \<Rightarrow>
          (case body dirpath files1 of
             (files2, outcome) \<Rightarrow>
               (case rmtree stops dirpath files2 of
                  (Some err, files3) \<Rightarrow> (files3, Inl err)
                | (None, files3) \<Rightarrow> (files3, outcome))))"

definition get_local_output_dir_fn ::
  "HDFSStore \<Rightarrow> string \<Rightarrow> string \<Rightarrow> string list \<Rightarrow> (string \<Rightarrow> string set \<Rightarrow> string set option) \<Rightarrow>
   (string \<Rightarrow> string set \<Rightarrow> string set \<times> (error + 'a)) \<Rightarrow> string set \<Rightarrow> string set \<times> (error + 'a)" where
  "get_local_output_dir_fn self run_id = local_run_path (self_temp_dir self)"

section \<open>Notions the properties are stated with\<close>

text \<open>The local paths a walk visits, in order, and those a trace uploads.\<close>

definition visited :: "(string \<times> string list \<times> string list) list \<Rightarrow> string list" where
  "visited w = concat (map (\<lambda>(local_dir, dirs, files). map (os_path_join local_dir) files) w)"

fun uploads :: "event list \<Rightarrow> string list" where
  "uploads [] = []"
| "uploads (Connect kw r # tr) = uploads tr"
| "uploads (Upload hdfs_path local_path ok # tr) = local_path # uploads tr"

fun uploads_ok :: "event list \<Rightarrow> string list" where
  "uploads_ok [] = []"
| "uploads_ok (Connect kw r # tr) = uploads_ok tr"
| "uploads_ok (Upload hdfs_path local_path ok # tr) =
     (if ok then local_path # uploads_ok tr else uploads_ok tr)"

text \<open>The remote paths a trace uploads to, in order.\<close>

fun remotes :: "event list \<Rightarrow> string list" where
  "remotes [] = []"
| "remotes (Connect kw r # tr) = remotes tr"
| "remotes (Upload hdfs_path local_path ok # tr) = hdfs_path # remotes tr"

text \<open>The calls of the connection factory in a trace, and those that gave a connection.\<close>

fun connects :: "event list \<Rightarrow> nat" where
  "connects [] = 0"
| "connects (Connect kw r # tr) = Suc (connects tr)"
| "connects (Upload hdfs_path local_path ok # tr) = connects tr"

fun connections :: "event list \<Rightarrow> handle list" where
  "connections [] = []"
| "connections (Connect kw None # tr) = connections tr"
| "connections (Connect kw (Some h) # tr) = h # connections tr"
| "connections (Upload hdfs_path local_path ok # tr) = connections tr"

text \<open>The integer timestamp the code reads for a path, and the decision rule of the
  specification: the path is not in the ledger, or its timestamp is strictly greater than
  the recorded one.\<close>

definition modified_ts :: "env \<Rightarrow> string \<Rightarrow> int option" where
  "modified_ts e p = map_option py_int (getmtime e p)"

definition due :: "(string \<Rightarrow> int option) \<Rightarrow> env \<Rightarrow> string \<Rightarrow> bool" where
  "due ledger e p =
     (case modified_ts e p of
        None \<Rightarrow> False
      | Some ts \<Rightarrow> (case ledger p of None \<Rightarrow> True | Some recorded \<Rightarrow> recorded < ts))"

text \<open>Python's \<open>sub in s\<close> on strings.\<close>

fun contains :: "string \<Rightarrow> string \<Rightarrow> bool" where
  "contains sub [] = (sub = [])"
| "contains sub (x # xs) = (take (length sub) (x # xs) = sub \<or> contains sub xs)"

text \<open>What follows the host in a location without a scheme, and the digits of its port:
  those after a colon that follows the host.\<close>

definition after_host :: "string \<Rightarrow> string" where
  "after_host url = dropWhile (\<lambda>c. c \<notin> set ''/:'') url"

definition digits_after_colon :: "string \<Rightarrow> string" where
  "digits_after_colon r =
     (case r of
        [] \<Rightarrow> []
      | c # ds \<Rightarrow> if c = CHR '':'' then takeWhile (cc_match (Between CHR ''0'' CHR ''9'')) ds else [])"

definition port_digits :: "string \<Rightarrow> string" where
  "port_digits url = digits_after_colon (after_host url)"

section \<open>Worlds to run the code in\<close>

text \<open>A store as construction leaves it, and a world: whether the backend answers, the
  entries of the directory walked, the modification times of the paths, and the local
  paths whose upload fails.\<close>

definition example_kwargs :: hdfs_kwargs where
  "example_kwargs = \<lparr>kw_host = ''default'', kw_port = 0, kw_user = None,
                      kw_kerb_ticket = None, kw_extra_conf = None\<rparr>"

definition example_store :: HDFSStore where
  "example_store = \<lparr>self_temp_dir = None, self_url_prefix = ''hdfs://'',
                     self_hdfs_kwargs = example_kwargs, self_hdfs = HadoopFileSystem 0\<rparr>"

definition world :: "bool \<Rightarrow> node list \<Rightarrow> (string \<times> rat) list \<Rightarrow> string list \<Rightarrow> env" where
  "world reachable es mtimes failing =
     \<lparr>connect = (\<lambda>kw. if reachable then Some (HadoopFileSystem 1) else None),
      os_walk = (\<lambda>p. walk p es),
      getmtime = map_of mtimes,
      upload_ok = (\<lambda>hdfs_path local_path. local_path \<notin> set failing)\<rparr>"

definition no_base_error :: "string \<Rightarrow> error option" where
  "no_base_error prefix_path = None"

text \<open>A scratch directory \<open>/tmp/x\<close> with one file or with two, their modification
  times, and the sync function of a run before its first call.\<close>

definition one_file :: "rat \<Rightarrow> env" where
  "one_file mtime = world True [File ''F1''] [(''/tmp/x/F1'', mtime)] []"

definition two_files :: "rat \<Rightarrow> rat \<Rightarrow> string list \<Rightarrow> env" where
  "two_files mtime1 mtime2 failing =
     world True [File ''F1'', File ''F2''] [(''/tmp/x/F1'', mtime1), (''/tmp/x/F2'', mtime2)] failing"

definition fresh :: sync_closure where
  "fresh = sync_fn ''/store'' example_store ''run42''"

text \<open>A scratch directory \<open>/tmp/x\<close> that holds \<open>sub/dir/file.txt\<close>.\<close>

definition nested_file :: env where
  "nested_file =
     world True [Dir ''sub'' [Dir ''dir'' [File ''file.txt'']]] [(''/tmp/x/sub/dir/file.txt'', 100)] []"

text \<open>Two bodies for the scope of a scratch directory: both write a file into it, one
  returns and one raises.  Two worlds for \<open>rmtree\<close>: one where every entry can be removed,
  and one where the first entry cannot, so that nothing is removed.\<close>

definition writes_model :: "string \<Rightarrow> string set \<Rightarrow> string set \<times> (error + unit)" where
  "writes_model dirpath files = (insert (dirpath @ ''/model.h5'') files, Inr ())"

definition writes_model_and_raises :: "string \<Rightarrow> string set \<Rightarrow> string set \<times> (error + unit)" where
  "writes_model_and_raises dirpath files = (insert (dirpath @ ''/model.h5'') files, Inl UploadError)"

definition removable :: "string \<Rightarrow> string set \<Rightarrow> string set option" where
  "removable dirpath files = None"

definition refused :: "string \<Rightarrow> string set \<Rightarrow> string set option" where
  "refused dirpath files = Some {}"

section \<open>Notions the proofs use\<close>

text \<open>The numbers of the groups of a pattern, and a matcher state that sits at its
  position in the string searched.\<close>

fun groups :: "regex \<Rightarrow> nat set" where
  "groups (Atom c) = {}"
| "groups (Plus c) = {}"
| "groups (Seq a b) = groups a \<union> groups b"
| "groups (Opt r) = groups r"
| "groups (Group n r) = insert n (groups r)"
| "groups Bol = {}"
| "groups Eol = {}"

definition tracks :: "string \<Rightarrow> mstate \<Rightarrow> bool" where
  "tracks url s = (pos s \<le> length url \<and> rest s = drop (pos s) url)"

text \<open>The two loops of \<open>fn\<close> as one loop over the pairs of local path and remote path
  that they go through, in order.\<close>

definition targets ::
  "string \<Rightarrow> nat \<Rightarrow> (string \<times> string list \<times> string list) list \<Rightarrow> (string \<times> string) list" where
  "targets hdfs_root prefix w =
     concat (map (\<lambda>(local_dir, dirs, files).
                    map (\<lambda>file. (os_path_join local_dir file,
                                  os_path_join (os_path_join hdfs_root (drop prefix local_dir)) file))
                        files) w)"

fun sync_flat ::
  "env \<Rightarrow> (string \<times> string) list \<Rightarrow> (string \<Rightarrow> int option) \<Rightarrow>
   (string \<Rightarrow> int option) \<times> event list \<times> error option" where
  "sync_flat e [] ledger = (ledger, [], None)"
| "sync_flat e ((local_path, hdfs_path) # vs) ledger =
     (case getmtime e local_path of
        None \<Rightarrow> (ledger, [], Some OSError)
      | Some mtime \<Rightarrow>
          if (case ledger local_path of None \<Rightarrow> False | Some recorded \<Rightarrow> py_int mtime \<le> recorded)
          then sync_flat e vs ledger
          else if upload_ok e hdfs_path local_path
          then (case sync_flat e vs (ledger(local_path \<mapsto> py_int mtime)) of
                  (ledger', tr, err) \<Rightarrow> (ledger', Upload hdfs_path local_path True # tr, err))
          else (ledger, [Upload hdfs_path local_path False], Some UploadError))"


section \<open>The matcher\<close>

lemma greedy_plus_Some:
  "greedy_plus c k p xs = Some res \<Longrightarrow>
   \<exists>n. 0 < n \<and> n \<le> length xs \<and> (\<forall>x \<in> set (take n xs). cc_match c x) \<and>
       k (p + n) (drop n xs) = Some res"
proof (induction xs arbitrary: p)
  case Nil
  then show ?case by simp
next
  case (Cons x xs)
  from Cons.prems have m: "cc_match c x" by (simp split: if_splits)
  show ?case
  proof (cases "greedy_plus c k (Suc p) xs")
    case None
    with Cons.prems m have "k (Suc p) xs = Some res" by simp
    with m show ?thesis by (intro exI[of _ 1]) simp
  next
    case (Some r)
    with Cons.prems m have "greedy_plus c k (Suc p) xs = Some res" by simp
    from Cons.IH[OF this] obtain n where
      n: "0 < n" "n \<le> length xs" "\<forall>x \<in> set (take n xs). cc_match c x"
         "k (Suc p + n) (drop n xs) = Some res"
      by blast
    with m show ?thesis by (intro exI[of _ "Suc n"]) simp
  qed
qed

lemma greedy_plus_None:
  "(\<And>n. 0 < n \<Longrightarrow> n \<le> length xs \<Longrightarrow> k (p + n) (drop n xs) = None) \<Longrightarrow>
   greedy_plus c k p xs = None"
proof (induction xs arbitrary: p)
  case Nil
  then show ?case by simp
next
  case (Cons x xs)
  have "greedy_plus c k (Suc p) xs = None"
  proof (rule Cons.IH)
    fix n assume "0 < n" "n \<le> length xs"
    with Cons.prems[of "Suc n"] show "k (Suc p + n) (drop n xs) = None" by simp
  qed
  moreover from Cons.prems[of 1] have "k (Suc p) xs = None" by simp
  ultimately show ?case by simp
qed

text \<open>Greedy: when the continuation accepts after the longest run, that is the match.\<close>

lemma greedy_plus_max:
  "ys \<noteq> [] \<Longrightarrow> \<forall>y \<in> set ys. cc_match c y \<Longrightarrow> zs = [] \<or> \<not> cc_match c (hd zs) \<Longrightarrow>
   k (p + length ys) zs = Some r \<Longrightarrow> greedy_plus c k p (ys @ zs) = Some r"
proof (induction ys arbitrary: p)
  case Nil
  then show ?case by simp
next
  case (Cons y ys)
  show ?case
  proof (cases "ys = []")
    case True
    with Cons.prems have "greedy_plus c k (Suc p) zs = None" by (cases zs) auto
    with Cons.prems True show ?thesis by simp
  next
    case False
    with Cons.prems have "greedy_plus c k (Suc p) (ys @ zs) = Some r"
      by (intro Cons.IH) auto
    with Cons.prems show ?thesis by simp
  qed
qed

lemma tracks_step:
  "tracks url s \<Longrightarrow> n \<le> length (rest s) \<Longrightarrow>
   tracks url (s\<lparr>pos := pos s + n, rest := drop n (rest s)\<rparr>)"
  by (auto simp: tracks_def add.commute)

text \<open>A match of a pattern is a call of its continuation, further on in the string, with
  the groups outside the pattern as they were.\<close>

lemma bt_cont:
  "bt r k s = Some res \<Longrightarrow> tracks url s \<Longrightarrow>
   \<exists>s'. k s' = Some res \<and> tracks url s' \<and> pos s \<le> pos s' \<and>
        (\<forall>g. g \<notin> groups r \<longrightarrow> marks s' g = marks s g)"
proof (induction r arbitrary: k s)
  case (Atom c)
  then obtain x xs where r: "rest s = x # xs"
    and k: "k (s\<lparr>pos := Suc (pos s), rest := xs\<rparr>) = Some res"
    by (auto split: list.splits if_splits)
  from tracks_step[OF Atom.prems(2), of 1] r
  have "tracks url (s\<lparr>pos := Suc (pos s), rest := xs\<rparr>)" by simp
  with k show ?case by (intro exI[of _ "s\<lparr>pos := Suc (pos s), rest := xs\<rparr>"]) simp
next
  case (Plus c)
  from Plus.prems(1)
  have "greedy_plus c (\<lambda>p r. k (s\<lparr>pos := p, rest := r\<rparr>)) (pos s) (rest s) = Some res" by simp
  from greedy_plus_Some[OF this] obtain n where
    n: "n \<le> length (rest s)" "k (s\<lparr>pos := pos s + n, rest := drop n (rest s)\<rparr>) = Some res"
    by blast
  from tracks_step[OF Plus.prems(2) n(1)] n(2) show ?case
    by (intro exI[of _ "s\<lparr>pos := pos s + n, rest := drop n (rest s)\<rparr>"]) simp
next
  case (Seq a b)
  from Seq.prems(1) have "bt a (bt b k) s = Some res" by simp
  from Seq.IH(1)[OF this Seq.prems(2)] obtain s1 where
    s1: "bt b k s1 = Some res" "tracks url s1" "pos s \<le> pos s1"
        "\<forall>g. g \<notin> groups a \<longrightarrow> marks s1 g = marks s g"
    by blast
  from Seq.IH(2)[OF s1(1) s1(2)] obtain s2 where
    s2: "k s2 = Some res" "tracks url s2" "pos s1 \<le> pos s2"
        "\<forall>g. g \<notin> groups b \<longrightarrow> marks s2 g = marks s1 g"
    by blast
  from s1 s2 show ?case by (intro exI[of _ s2]) auto
next
  case (Opt r)
  show ?case
  proof (cases "bt r k s")
    case None
    with Opt.prems show ?thesis by (intro exI[of _ s]) simp
  next
    case (Some m)
    with Opt.prems(1) have "bt r k s = Some res" by simp
    from Opt.IH[OF this Opt.prems(2)] show ?thesis by simp
  qed
next
  case (Group n r)
  let ?k = "\<lambda>s'. k (s'\<lparr>marks := (marks s')(n \<mapsto> (pos s, pos s'))\<rparr>)"
  from Group.prems(1) have "bt r ?k s = Some res" by simp
  from Group.IH[OF this Group.prems(2)] obtain s1 where
    s1: "?k s1 = Some res" "tracks url s1" "pos s \<le> pos s1"
        "\<forall>g. g \<notin> groups r \<longrightarrow> marks s1 g = marks s g"
    by blast
  then show ?case
    by (intro exI[of _ "s1\<lparr>marks := (marks s1)(n \<mapsto> (pos s, pos s1))\<rparr>"]) (auto simp: tracks_def)
next
  case Bol
  then show ?case by (intro exI[of _ s]) (simp split: if_splits)
next
  case Eol
  then show ?case by (intro exI[of _ s]) (simp split: if_splits)
qed

lemma bt_Group_Some:
  assumes "bt (Group n r) k s = Some res" and "tracks url s"
  shows "\<exists>s'. k (s'\<lparr>marks := (marks s')(n \<mapsto> (pos s, pos s'))\<rparr>) = Some res \<and> tracks url s' \<and>
              pos s \<le> pos s' \<and> (\<forall>g. g \<notin> groups r \<longrightarrow> marks s' g = marks s g)"
proof -
  from assms(1)
  have "bt r (\<lambda>s'. k (s'\<lparr>marks := (marks s')(n \<mapsto> (pos s, pos s'))\<rparr>)) s = Some res"
    by (simp only: bt.simps)
  from bt_cont[OF this assms(2)] show ?thesis by blast
qed

lemma bt_Seq: "bt (Seq a b) k = bt a (bt b k)"
  by (rule ext) simp

lemma opt_total: "k s \<noteq> None \<Longrightarrow> bt (Opt r) k s \<noteq> None"
  by (simp split: option.splits)

text \<open>With \<open>^\<close> in front, only the start of the string can match.\<close>

lemma search_from_Bol_pos: "0 < p \<Longrightarrow> search_from (Seq Bol r) p xs = None"
  by (induction xs arbitrary: p) auto

lemma re_search_Bol:
  "re_search (Seq Bol r) url = bt r Some \<lparr>pos = 0, rest = url, marks = (\<lambda>_. None)\<rparr>"
  by (cases url) (auto simp: re_search_def search_from_Bol_pos split: option.splits)

lemma contains_drop: "\<not> contains sub xs \<Longrightarrow> take (length sub) (drop n xs) \<noteq> sub"
proof (induction xs arbitrary: n)
  case Nil
  then show ?case by auto
next
  case (Cons x xs)
  then show ?case by (cases n) auto
qed

section \<open>\<open>URL_PATTERN\<close>\<close>

text \<open>What is left of the pattern once the scheme, the host and the port are through.\<close>

lemma URL_PATTERN_tail:
  assumes "re_search URL_PATTERN url = Some m"
  shows "\<exists>s. tracks url s \<and> marks s 4 = None \<and>
             bt (Opt (Group 4 (Plus AnyChar))) (bt Eol Some) s = Some m"
proof -
  let ?s0 = "\<lparr>pos = 0, rest = url, marks = (\<lambda>_. None)\<rparr>"
  let ?g1 = "Opt (Group 1 (Seq (Plus AnyChar)
                (Seq (Atom (Lit CHR '':'')) (Seq (Atom (Lit CHR ''/'')) (Atom (Lit CHR ''/''))))))"
  let ?g2 = "Opt (Group 2 (Plus (NoneOf ''/:'')))"
  let ?g3 = "Opt (Seq (Atom (OneOf '':'')) (Group 3 (Plus (Between CHR ''0'' CHR ''9''))))"
  let ?k = "bt (Opt (Group 4 (Plus AnyChar))) (bt Eol Some)"
  have t0: "tracks url ?s0" by (simp add: tracks_def)
  from assms have "bt ?g1 (bt ?g2 (bt ?g3 ?k)) ?s0 = Some m"
    by (simp only: URL_PATTERN_def re_search_Bol bt_Seq)
  from bt_cont[OF this t0] obtain s1 where
    s1: "bt ?g2 (bt ?g3 ?k) s1 = Some m" "tracks url s1" "marks s1 4 = None" by auto
  from bt_cont[OF s1(1) s1(2)] s1(3) obtain s2 where
    s2: "bt ?g3 ?k s2 = Some m" "tracks url s2" "marks s2 4 = None" by auto
  from bt_cont[OF s2(1) s2(2)] s2(3) obtain s3 where
    s3: "?k s3 = Some m" "tracks url s3" "marks s3 4 = None" by auto
  then show ?thesis by blast
qed

text \<open>Group 4 ends where \<open>$\<close> matched: at the end of the string, or before a newline
  that ends it.\<close>

lemma URL_PATTERN_group4:
  assumes "re_search URL_PATTERN url = Some m" and "marks m 4 = Some (a, b)"
  shows "a \<le> b \<and> b \<le> length url \<and> (drop b url = [] \<or> drop b url = [newline])"
proof -
  from URL_PATTERN_tail[OF assms(1)] obtain s where
    s: "tracks url s" "marks s 4 = None"
       "bt (Opt (Group 4 (Plus AnyChar))) (bt Eol Some) s = Some m"
    by blast
  show ?thesis
  proof (cases "bt (Group 4 (Plus AnyChar)) (bt Eol Some) s")
    case None
    with s(3) have "bt Eol Some s = Some m" by simp
    then have "m = s" by (simp split: if_splits)
    with s(2) assms(2) show ?thesis by simp
  next
    case (Some m')
    with s(3) have "bt (Group 4 (Plus AnyChar)) (bt Eol Some) s = Some m" by simp
    from bt_Group_Some[OF this s(1)] obtain s' where
      s': "bt Eol Some (s'\<lparr>marks := (marks s')(4 \<mapsto> (pos s, pos s'))\<rparr>) = Some m"
          "tracks url s'" "pos s \<le> pos s'" by blast
    from s'(1) have e: "rest s' = [] \<or> rest s' = [newline]"
      and m: "m = s'\<lparr>marks := (marks s')(4 \<mapsto> (pos s, pos s'))\<rparr>"
      by (auto split: if_splits)
    from m assms(2) have ab: "a = pos s" "b = pos s'" by auto
    from s'(2) e s'(3) ab show ?thesis by (auto simp: tracks_def)
  qed
qed

lemma parse_url_path:
  assumes "parse_url url = Inr (prefix, host, port, Some path, off)"
  shows "\<exists>a b. off = int a \<and> a \<le> b \<and> b \<le> length url \<and> path = take (b - a) (drop a url) \<and>
               (drop b url = [] \<or> drop b url = [newline])"
proof -
  from assms obtain m where m: "re_search URL_PATTERN url = Some m"
    and p: "group url m 4 = Some path" and o: "off = start m 4"
    by (auto simp: parse_url_def Let_def split: option.splits sum.splits)
  from p obtain a b where ab: "marks m 4 = Some (a, b)" and path: "path = take (b - a) (drop a url)"
    by (auto simp: group_def split: option.splits)
  from URL_PATTERN_group4[OF m ab] ab o path show ?thesis
    by (intro exI[of _ a] exI[of _ b]) (simp add: start_def)
qed

text \<open>
  Claim C4, as amended.  For every location string that does not end in a newline and for
  which \<open>parse_url\<close> returns a path, \<open>path_offset\<close> is an index into the string, the
  string from \<open>path_offset\<close> on is the path, and the part before \<open>path_offset\<close> followed
  by the path is the string.  The three locations of the claim parse as it says.
\<close>

theorem parse_url_path_offset:
  "(\<forall>url prefix host port path off.
      parse_url url = Inr (prefix, host, port, Some path, off) \<and> (url = [] \<or> last url \<noteq> newline) \<longrightarrow>
      0 \<le> off \<and> slice_from url off = path \<and> slice_to url off @ path = url)
   \<and> parse_url ''hdfs://nn:8020/a/b'' = Inr (Some ''hdfs://'', Some ''nn'', Some 8020, Some ''/a/b'', 14)
   \<and> parse_url ''hdfs:///a/b'' = Inr (Some ''hdfs://'', None, None, Some ''/a/b'', 7)
   \<and> parse_url ''/a/b'' = Inr (None, None, None, Some ''/a/b'', 0)"
proof (intro conjI allI impI)
  fix url prefix host port path off
  assume h: "parse_url url = Inr (prefix, host, port, Some path, off) \<and>
             (url = [] \<or> last url \<noteq> newline)"
  from parse_url_path[of url prefix host port path off] h obtain a b where
    ab: "off = int a" "a \<le> b" "b \<le> length url" "path = take (b - a) (drop a url)"
        "drop b url = [] \<or> drop b url = [newline]" by blast
  have "drop b url \<noteq> [newline]"
  proof
    assume d: "drop b url = [newline]"
    then have "url \<noteq> []" by auto
    moreover from d have "last url = newline"
      by (metis append_take_drop_id last_appendR last_snoc list.distinct(1) append_Nil)
    ultimately show False using h by simp
  qed
  with ab(5) have "length url \<le> b" by simp
  with ab(3) have b: "b = length url" by simp
  with ab(4) have p: "path = drop a url" by simp
  show "0 \<le> off" using ab(1) by simp
  show "slice_from url off = path" using ab(1) p by (simp add: slice_from_def)
  show "slice_to url off @ path = url" using ab(1) p by (simp add: slice_to_def)
next
  show "parse_url ''hdfs://nn:8020/a/b'' =
        Inr (Some ''hdfs://'', Some ''nn'', Some 8020, Some ''/a/b'', 14)"
    by code_simp
  show "parse_url ''hdfs:///a/b'' = Inr (Some ''hdfs://'', None, None, Some ''/a/b'', 7)"
    by code_simp
  show "parse_url ''/a/b'' = Inr (None, None, None, Some ''/a/b'', 0)"
    by code_simp
qed

theorem parse_url_path_offset_witness:
  "parse_url ''hdfs://namenode01:8020/user/test/Cerebro'' =
     Inr (Some ''hdfs://'', Some ''namenode01'', Some 8020, Some ''/user/test/Cerebro'', 22)
   \<and> last ''hdfs://namenode01:8020/user/test/Cerebro'' \<noteq> newline
   \<and> slice_from ''hdfs://namenode01:8020/user/test/Cerebro'' 22 = ''/user/test/Cerebro''
   \<and> slice_to ''hdfs://namenode01:8020/user/test/Cerebro'' 22 @ ''/user/test/Cerebro'' =
       ''hdfs://namenode01:8020/user/test/Cerebro''"
proof -
  have p: "parse_url ''hdfs://namenode01:8020/user/test/Cerebro'' =
     Inr (Some ''hdfs://'', Some ''namenode01'', Some 8020, Some ''/user/test/Cerebro'', 22)"
    by code_simp
  have l: "last ''hdfs://namenode01:8020/user/test/Cerebro'' \<noteq> newline"
    by (simp add: newline_def)
  from parse_url_path_offset[THEN conjunct1, rule_format,
      of "''hdfs://namenode01:8020/user/test/Cerebro''" "Some ''hdfs://''" "Some ''namenode01''"
         "Some 8020" "''/user/test/Cerebro''" 22] p l
  show ?thesis by simp
qed

text \<open>
  Claim C4 as stated fails on a location that ends in a newline: \<open>$\<close> matches before
  the newline, the path stops there, and the string from \<open>path_offset\<close> on is longer.
\<close>

theorem parse_url_trailing_newline:
  "parse_url (''/a/b'' @ [newline]) = Inr (None, None, None, Some ''/a/b'', 0) \<and>
   slice_from (''/a/b'' @ [newline]) 0 \<noteq> ''/a/b''"
  by code_simp

section \<open>A location without a scheme that starts with a name\<close>

lemma no_scheme:
  assumes "\<not> contains ''://'' (rest s)"
  shows "bt (Opt (Group 1 (Seq (Plus AnyChar)
            (Seq (Atom (Lit CHR '':'')) (Seq (Atom (Lit CHR ''/'')) (Atom (Lit CHR ''/''))))))) k s
         = k s"
proof -
  have "\<And>n k' p. bt (Seq (Atom (Lit CHR '':'')) (Seq (Atom (Lit CHR ''/'')) (Atom (Lit CHR ''/'')))) k'
            (s\<lparr>pos := p, rest := drop n (rest s)\<rparr>) = None"
  proof -
    fix n k' p
    from contains_drop[OF assms, of n]
    have "take (Suc (Suc (Suc 0))) (drop n (rest s)) \<noteq> ''://''" by simp
    then show "bt (Seq (Atom (Lit CHR '':'')) (Seq (Atom (Lit CHR ''/'')) (Atom (Lit CHR ''/'')))) k'
            (s\<lparr>pos := p, rest := drop n (rest s)\<rparr>) = None"
      by (auto split: list.splits)
  qed
  then have "greedy_plus AnyChar
      (\<lambda>p r. bt (Seq (Atom (Lit CHR '':'')) (Seq (Atom (Lit CHR ''/'')) (Atom (Lit CHR ''/''))))
                (\<lambda>s'. k (s'\<lparr>marks := (marks s')(1 \<mapsto> (pos s, pos s'))\<rparr>)) (s\<lparr>pos := p, rest := r\<rparr>))
      (pos s) (rest s) = None"
    by (intro greedy_plus_None) simp
  then have "bt (Group 1 (Seq (Plus AnyChar)
                (Seq (Atom (Lit CHR '':'')) (Seq (Atom (Lit CHR ''/'')) (Atom (Lit CHR ''/'')))))) k s
             = None"
    by (simp only: bt.simps)
  then show ?thesis by (simp only: bt.simps option.case)
qed

lemma bt_Group_Plus:
  "bt (Group g (Plus c)) k s =
   greedy_plus c (\<lambda>p r. k (s\<lparr>pos := p, rest := r, marks := (marks s)(g \<mapsto> (pos s, p))\<rparr>))
     (pos s) (rest s)"
  by simp

lemma bt_Group_Plus_max:
  assumes "rest s = ys @ zs" and "ys \<noteq> []" and "\<forall>y \<in> set ys. cc_match c y"
    and "zs = [] \<or> \<not> cc_match c (hd zs)"
    and "k (s\<lparr>pos := pos s + length ys, rest := zs,
               marks := (marks s)(g \<mapsto> (pos s, pos s + length ys))\<rparr>) = Some res"
  shows "bt (Group g (Plus c)) k s = Some res"
proof -
  let ?k = "\<lambda>p r. k (s\<lparr>pos := p, rest := r, marks := (marks s)(g \<mapsto> (pos s, p))\<rparr>)"
  from assms(5) have "?k (pos s + length ys) zs = Some res" .
  with assms(2,3,4) have "greedy_plus c ?k (pos s) (ys @ zs) = Some res"
    by (intro greedy_plus_max)
  with assms(1) show ?thesis by (simp only: bt_Group_Plus)
qed

lemma bt_Group_Plus_run:
  assumes "bt (Group g (Plus c)) k s = Some res"
  shows "\<exists>n. 0 < n \<and> n \<le> length (rest s) \<and> (\<forall>x \<in> set (take n (rest s)). cc_match c x) \<and>
             k (s\<lparr>pos := pos s + n, rest := drop n (rest s),
                   marks := (marks s)(g \<mapsto> (pos s, pos s + n))\<rparr>) = Some res"
proof -
  from assms
  have "greedy_plus c (\<lambda>p r. k (s\<lparr>pos := p, rest := r, marks := (marks s)(g \<mapsto> (pos s, p))\<rparr>))
          (pos s) (rest s) = Some res"
    by (simp only: bt_Group_Plus)
  from greedy_plus_Some[OF this] show ?thesis by blast
qed

lemma bt_Group_Plus_None:
  "rest s = [] \<or> \<not> cc_match c (hd (rest s)) \<Longrightarrow> bt (Group g (Plus c)) k s = None"
  by (cases "rest s") auto

lemma newline_split:
  assumes "newline \<notin> set (butlast r)" and "r \<noteq> []" and "r \<noteq> [newline]"
  shows "\<exists>t e. r = t @ e \<and> t \<noteq> [] \<and> newline \<notin> set t \<and> (e = [] \<or> e = [newline])"
proof (cases "last r = newline")
  case True
  with assms(2) have r: "r = butlast r @ [newline]" by (metis append_butlast_last_id)
  with assms(3) have "butlast r \<noteq> []" by (metis append_Nil)
  with r assms(1) show ?thesis by blast
next
  case False
  from assms(2) have "set r = insert (last r) (set (butlast r))"
    by (metis append_butlast_last_id list.simps(15) rotate1.simps(2) set_rotate1)
  with assms(1) False have "newline \<notin> set r" by auto
  with assms(2) show ?thesis by (intro exI[of _ r] exI[of _ "[]"]) simp
qed

lemma butlast_suffix: "zs \<noteq> [] \<Longrightarrow> set (butlast zs) \<subseteq> set (butlast (ys @ zs))"
  by (simp add: butlast_append)

lemma path_total:
  assumes "newline \<notin> set (butlast (rest s))"
  shows "bt (Opt (Group 4 (Plus AnyChar))) (bt Eol Some) s \<noteq> None"
proof (cases "rest s = [] \<or> rest s = [newline]")
  case True
  then have "bt Eol Some s \<noteq> None" by auto
  then show ?thesis by (rule opt_total)
next
  case False
  with assms newline_split[of "rest s"] obtain t e where
    te: "rest s = t @ e" "t \<noteq> []" "newline \<notin> set t" "e = [] \<or> e = [newline]" by auto
  from te(4) obtain m where
    m: "bt Eol Some (s\<lparr>pos := pos s + length t, rest := e,
                      marks := (marks s)(4 \<mapsto> (pos s, pos s + length t))\<rparr>) = Some m"
    by auto
  have "bt (Group 4 (Plus AnyChar)) (bt Eol Some) s = Some m"
  proof (rule bt_Group_Plus_max[where ys = t and zs = e and s = s and k = "bt Eol Some"])
    show "rest s = t @ e" by (rule te(1))
    show "t \<noteq> []" by (rule te(2))
    show "\<forall>y \<in> set t. cc_match AnyChar y" using te(3) by auto
    show "e = [] \<or> \<not> cc_match AnyChar (hd e)" using te(4) by auto
    show "bt Eol Some (s\<lparr>pos := pos s + length t, rest := e,
                      marks := (marks s)(4 \<mapsto> (pos s, pos s + length t))\<rparr>) = Some m"
      by (rule m)
  qed
  then show ?thesis by (simp only: bt.simps option.case) simp
qed

lemma path_marks:
  assumes "bt (Opt (Group 4 (Plus AnyChar))) (bt Eol Some) s = Some m" and "marks s 4 = None"
  shows "(\<forall>g. g \<noteq> 4 \<longrightarrow> marks m g = marks s g) \<and> (\<forall>a b. marks m 4 = Some (a, b) \<longrightarrow> pos s \<le> a)"
proof (cases "bt (Group 4 (Plus AnyChar)) (bt Eol Some) s")
  case None
  with assms(1) have "bt Eol Some s = Some m" by simp
  then have "m = s" by (simp split: if_splits)
  with assms(2) show ?thesis by simp
next
  case (Some m')
  with assms(1) have "bt (Group 4 (Plus AnyChar)) (bt Eol Some) s = Some m" by simp
  from bt_Group_Plus_run[OF this] obtain n where
    "bt Eol Some (s\<lparr>pos := pos s + n, rest := drop n (rest s),
                    marks := (marks s)(4 \<mapsto> (pos s, pos s + n))\<rparr>) = Some m" by blast
  then have "m = s\<lparr>pos := pos s + n, rest := drop n (rest s),
                    marks := (marks s)(4 \<mapsto> (pos s, pos s + n))\<rparr>"
    by (simp split: if_splits)
  then show ?thesis by simp
qed

text \<open>The pattern matches only when no newline is left but one that ends the string.\<close>

lemma path_newline:
  assumes "bt (Opt (Group 4 (Plus AnyChar))) (bt Eol Some) s = Some m"
  shows "newline \<notin> set (butlast (rest s))"
proof (cases "bt (Group 4 (Plus AnyChar)) (bt Eol Some) s")
  case None
  with assms have "bt Eol Some s = Some m" by simp
  then have "rest s = [] \<or> rest s = [newline]" by (simp split: if_splits)
  then show ?thesis by auto
next
  case (Some m')
  with assms have "bt (Group 4 (Plus AnyChar)) (bt Eol Some) s = Some m" by simp
  from bt_Group_Plus_run[OF this] obtain n where
    n: "\<forall>x \<in> set (take n (rest s)). cc_match AnyChar x"
       "bt Eol Some (s\<lparr>pos := pos s + n, rest := drop n (rest s),
                       marks := (marks s)(4 \<mapsto> (pos s, pos s + n))\<rparr>) = Some m" by blast
  from n(2) have e: "drop n (rest s) = [] \<or> drop n (rest s) = [newline]"
    by (simp split: if_splits)
  from n(1) have t: "newline \<notin> set (take n (rest s))" by auto
  have "rest s = take n (rest s) @ drop n (rest s)" by simp
  with e have "butlast (rest s) = butlast (take n (rest s)) \<or> butlast (rest s) = take n (rest s)"
    by (metis append_Nil2 butlast_snoc)
  with t show ?thesis by (auto dest: in_set_butlastD)
qed

text \<open>The port: a colon and the longest run of digits after it, when there is one.\<close>

lemma port_match:
  assumes nonl: "newline \<notin> set (butlast (rest s))" and m4: "marks s 4 = None"
  shows "\<exists>m. bt (Opt (Seq (Atom (OneOf '':'')) (Group 3 (Plus (Between CHR ''0'' CHR ''9'')))))
              (bt (Opt (Group 4 (Plus AnyChar))) (bt Eol Some)) s = Some m \<and>
             marks m 1 = marks s 1 \<and> marks m 2 = marks s 2 \<and>
             marks m 3 = (if digits_after_colon (rest s) = [] then marks s 3
                          else Some (Suc (pos s), Suc (pos s) + length (digits_after_colon (rest s)))) \<and>
             (\<forall>a b. marks m 4 = Some (a, b) \<longrightarrow> pos s \<le> a)"
proof (cases "digits_after_colon (rest s) = []")
  case True
  let ?K4 = "bt (Opt (Group 4 (Plus AnyChar))) (bt Eol Some)"
  have "bt (Seq (Atom (OneOf '':'')) (Group 3 (Plus (Between CHR ''0'' CHR ''9'')))) ?K4 s = None"
  proof (cases "rest s")
    case Nil
    then show ?thesis by simp
  next
    case (Cons c ds)
    show ?thesis
    proof (cases "c = CHR '':''")
      case False
      with Cons show ?thesis by simp
    next
      case c: True
      let ?s2 = "s\<lparr>pos := Suc (pos s), rest := ds\<rparr>"
      from True Cons c have "takeWhile (cc_match (Between CHR ''0'' CHR ''9'')) ds = []"
        by (simp add: digits_after_colon_def)
      then have "rest ?s2 = [] \<or> \<not> cc_match (Between CHR ''0'' CHR ''9'') (hd (rest ?s2))"
        by (cases ds) (auto split: if_splits)
      from bt_Group_Plus_None[OF this]
      have "bt (Group 3 (Plus (Between CHR ''0'' CHR ''9''))) ?K4 ?s2 = None" .
      with Cons c show ?thesis by (simp only: bt.simps list.case cc_match.simps) simp
    qed
  qed
  then have eq: "bt (Opt (Seq (Atom (OneOf '':'')) (Group 3 (Plus (Between CHR ''0'' CHR ''9''))))) ?K4 s
             = ?K4 s"
    by (simp only: bt.simps option.case)
  from path_total[OF nonl] obtain m where m: "?K4 s = Some m" by auto
  from path_marks[OF m m4] m eq True show ?thesis by simp
next
  case False
  let ?K4 = "bt (Opt (Group 4 (Plus AnyChar))) (bt Eol Some)"
  let ?D = "cc_match (Between CHR ''0'' CHR ''9'')"
  from False obtain ds where r: "rest s = CHR '':'' # ds"
    by (auto simp: digits_after_colon_def split: list.splits if_splits)
  with False have d: "digits_after_colon (rest s) = takeWhile ?D ds" "takeWhile ?D ds \<noteq> []"
    by (simp_all add: digits_after_colon_def)
  let ?d = "takeWhile ?D ds" and ?z = "dropWhile ?D ds"
  let ?s2 = "s\<lparr>pos := Suc (pos s), rest := ds\<rparr>"
  let ?s3 = "?s2\<lparr>pos := pos ?s2 + length ?d, rest := ?z,
                  marks := (marks ?s2)(3 \<mapsto> (pos ?s2, pos ?s2 + length ?d))\<rparr>"
  have "newline \<notin> set (butlast (rest ?s3))"
  proof (cases "?z = []")
    case True
    then show ?thesis by (simp del: dropWhile_eq_Nil_conv)
  next
    case z: False
    have "rest s = (CHR '':'' # ?d) @ ?z" using r by simp
    with butlast_suffix[OF z, of "CHR '':'' # ?d"] nonl show ?thesis by auto
  qed
  from path_total[OF this] obtain m where m: "?K4 ?s3 = Some m" by auto
  have m43: "marks ?s3 4 = None" using m4 by simp
  have "bt (Group 3 (Plus (Between CHR ''0'' CHR ''9''))) ?K4 ?s2 = Some m"
  proof (rule bt_Group_Plus_max[where ys = ?d and zs = ?z and s = ?s2 and k = ?K4])
    show "rest ?s2 = ?d @ ?z" by simp
    show "?d \<noteq> []" by (rule d(2))
    show "\<forall>y \<in> set ?d. ?D y" by (auto dest: set_takeWhileD)
    show "?z = [] \<or> \<not> ?D (hd ?z)" using hd_dropWhile[of ?D ds] by auto
    show "?K4 ?s3 = Some m" by (rule m)
  qed
  with r have "bt (Seq (Atom (OneOf '':'')) (Group 3 (Plus (Between CHR ''0'' CHR ''9'')))) ?K4 s = Some m"
    by (simp only: bt.simps list.case cc_match.simps) simp
  then have res: "bt (Opt (Seq (Atom (OneOf '':'')) (Group 3 (Plus (Between CHR ''0'' CHR ''9''))))) ?K4 s
             = Some m"
    by (simp only: bt.simps option.case)
  from path_marks[OF m m43] have mk: "marks m 1 = marks s 1" "marks m 2 = marks s 2"
    "marks m 3 = Some (Suc (pos s), Suc (pos s) + length ?d)"
    "\<forall>a b. marks m 4 = Some (a, b) \<longrightarrow> pos s \<le> a"
    by auto
  from mk(3) d
  have "marks m 3 = (if digits_after_colon (rest s) = [] then marks s 3
                     else Some (Suc (pos s), Suc (pos s) + length (digits_after_colon (rest s))))"
    by simp
  with res mk(1,2,4) show ?thesis by blast
qed

lemma port_newline:
  assumes "bt (Opt (Seq (Atom (OneOf '':'')) (Group 3 (Plus (Between CHR ''0'' CHR ''9'')))))
              (bt (Opt (Group 4 (Plus AnyChar))) (bt Eol Some)) s = Some m"
  shows "newline \<notin> set (butlast (rest s))"
proof (cases "bt (Seq (Atom (OneOf '':'')) (Group 3 (Plus (Between CHR ''0'' CHR ''9''))))
                (bt (Opt (Group 4 (Plus AnyChar))) (bt Eol Some)) s")
  case None
  with assms have "bt (Opt (Group 4 (Plus AnyChar))) (bt Eol Some) s = Some m"
    by (simp only: bt.simps option.case)
  then show ?thesis by (rule path_newline)
next
  case (Some m')
  let ?K4 = "bt (Opt (Group 4 (Plus AnyChar))) (bt Eol Some)"
  let ?D = "cc_match (Between CHR ''0'' CHR ''9'')"
  from Some assms
  have a: "bt (Atom (OneOf '':'')) (bt (Group 3 (Plus (Between CHR ''0'' CHR ''9''))) ?K4) s = Some m"
    by (simp only: bt.simps option.case)
  then obtain ds where r: "rest s = CHR '':'' # ds"
    and g: "bt (Group 3 (Plus (Between CHR ''0'' CHR ''9''))) ?K4 (s\<lparr>pos := Suc (pos s), rest := ds\<rparr>)
            = Some m"
    by (cases "rest s") (auto split: if_splits)
  from bt_Group_Plus_run[OF g] obtain n where
    n: "\<forall>x \<in> set (take n ds). ?D x" and
    k: "?K4 (s\<lparr>pos := Suc (pos s), rest := ds\<rparr>
              \<lparr>pos := pos (s\<lparr>pos := Suc (pos s), rest := ds\<rparr>) + n,
               rest := drop n (rest (s\<lparr>pos := Suc (pos s), rest := ds\<rparr>)),
               marks := (marks (s\<lparr>pos := Suc (pos s), rest := ds\<rparr>))
                  (3 \<mapsto> (pos (s\<lparr>pos := Suc (pos s), rest := ds\<rparr>),
                        pos (s\<lparr>pos := Suc (pos s), rest := ds\<rparr>) + n))\<rparr>) = Some m"
    by auto
  from path_newline[OF k] have z: "newline \<notin> set (butlast (drop n ds))" by simp
  have "\<not> ?D newline" by (simp add: newline_def)
  with n have t: "newline \<notin> set (take n ds)" by auto
  have "newline \<noteq> CHR '':''" by (simp add: newline_def)
  have "set (butlast (ys @ zs)) \<subseteq> set ys \<union> set (butlast zs)" for ys zs :: string
    by (cases "zs = []") (auto simp: butlast_append dest: in_set_butlastD)
  from this[of "CHR '':'' # take n ds" "drop n ds"] r
  have "set (butlast (rest s)) \<subseteq> insert CHR '':'' (set (take n ds)) \<union> set (butlast (drop n ds))"
    by simp
  with z t \<open>newline \<noteq> CHR '':''\<close> show ?thesis by auto
qed

lemma host_run:
  assumes ne: "url \<noteq> []" and hd: "hd url \<notin> set ''/:''"
    and nosep: "\<not> contains ''://'' url" and nonl: "newline \<notin> set (butlast (after_host url))"
  shows "\<exists>m. re_search URL_PATTERN url = Some m \<and> marks m 1 = None \<and>
             marks m 2 = Some (0, length (takeWhile (\<lambda>c. c \<notin> set ''/:'') url)) \<and>
             group url m 3 = (if port_digits url = [] then None else Some (port_digits url)) \<and>
             (\<forall>a b. marks m 4 = Some (a, b) \<longrightarrow> length (takeWhile (\<lambda>c. c \<notin> set ''/:'') url) \<le> a)"
proof -
  let ?P = "\<lambda>c. c \<notin> set ''/:''"
  let ?run = "takeWhile ?P url" and ?zs = "dropWhile ?P url"
  let ?s0 = "\<lparr>pos = 0, rest = url, marks = (\<lambda>_. None)\<rparr>"
  let ?K3 = "bt (Opt (Seq (Atom (OneOf '':'')) (Group 3 (Plus (Between CHR ''0'' CHR ''9'')))))
              (bt (Opt (Group 4 (Plus AnyChar))) (bt Eol Some))"
  let ?s1 = "?s0\<lparr>pos := pos ?s0 + length ?run, rest := ?zs,
                  marks := (marks ?s0)(2 \<mapsto> (pos ?s0, pos ?s0 + length ?run))\<rparr>"
  have run: "?run \<noteq> []" using ne hd by (cases url) auto
  have zs: "?zs = [] \<or> \<not> cc_match (NoneOf ''/:'') (hd ?zs)"
    using hd_dropWhile[of ?P url] by auto
  have n1: "newline \<notin> set (butlast (rest ?s1))" using nonl by (simp add: after_host_def)
  have m41: "marks ?s1 4 = None" by simp
  from port_match[OF n1 m41] obtain m where m: "?K3 ?s1 = Some m"
    and mk: "marks m 1 = None" "marks m 2 = Some (0, length ?run)"
      "marks m 3 = (if port_digits url = [] then None
                    else Some (Suc (length ?run), Suc (length ?run) + length (port_digits url)))"
      "\<forall>a b. marks m 4 = Some (a, b) \<longrightarrow> length ?run \<le> a"
    by (auto simp: port_digits_def after_host_def)
  have "bt (Group 2 (Plus (NoneOf ''/:''))) ?K3 ?s0 = Some m"
  proof (rule bt_Group_Plus_max[where ys = ?run and zs = ?zs and s = ?s0 and k = ?K3])
    show "rest ?s0 = ?run @ ?zs" by simp
    show "?run \<noteq> []" by (rule run)
    show "\<forall>y \<in> set ?run. cc_match (NoneOf ''/:'') y" by (auto dest: set_takeWhileD)
    show "?zs = [] \<or> \<not> cc_match (NoneOf ''/:'') (hd ?zs)" by (rule zs)
    show "?K3 ?s1 = Some m" by (rule m)
  qed
  then have "bt (Opt (Group 2 (Plus (NoneOf ''/:'')))) ?K3 ?s0 = Some m"
    by (simp only: bt.simps option.case)
  moreover have ns: "\<not> contains ''://'' (rest ?s0)" using nosep by simp
  have "re_search URL_PATTERN url = bt (Opt (Group 2 (Plus (NoneOf ''/:'')))) ?K3 ?s0"
    by (simp only: URL_PATTERN_def re_search_Bol bt_Seq no_scheme[OF ns])
  ultimately have rs: "re_search URL_PATTERN url = Some m" by simp
  have g3: "group url m 3 = Some (port_digits url)" if pd: "port_digits url \<noteq> []"
  proof -
    let ?D = "cc_match (Between CHR ''0'' CHR ''9'')"
    from pd obtain ds where z: "?zs = CHR '':'' # ds" and p: "port_digits url = takeWhile ?D ds"
      by (auto simp: port_digits_def after_host_def digits_after_colon_def
               split: list.splits if_splits)
    have "url = ?run @ CHR '':'' # ds" using z by (metis takeWhile_dropWhile_id)
    then have "drop (Suc (length ?run)) url = ds"
      by (metis append.assoc append_Cons append_Nil append_eq_conv_conj length_append_singleton)
    moreover have "take (length (takeWhile ?D ds)) ds = takeWhile ?D ds"
      by (simp add: takeWhile_eq_take[symmetric])
    ultimately show ?thesis using mk(3) pd p by (simp add: group_def)
  qed
  from rs mk g3 show ?thesis by (auto simp: group_def)
qed

lemma host_newline:
  assumes nosep: "\<not> contains ''://'' url" and m: "re_search URL_PATTERN url = Some m"
  shows "newline \<notin> set (butlast (after_host url))"
proof -
  let ?P = "\<lambda>c. c \<notin> set ''/:''"
  let ?run = "takeWhile ?P url"
  let ?s0 = "\<lparr>pos = 0, rest = url, marks = (\<lambda>_. None)\<rparr>"
  let ?K3 = "bt (Opt (Seq (Atom (OneOf '':'')) (Group 3 (Plus (Between CHR ''0'' CHR ''9'')))))
              (bt (Opt (Group 4 (Plus AnyChar))) (bt Eol Some))"
  have ah: "after_host url = drop (length ?run) url"
    by (simp add: after_host_def dropWhile_eq_drop)
  have ns: "\<not> contains ''://'' (rest ?s0)" using nosep by simp
  have "re_search URL_PATTERN url = bt (Opt (Group 2 (Plus (NoneOf ''/:'')))) ?K3 ?s0"
    by (simp only: URL_PATTERN_def re_search_Bol bt_Seq no_scheme[OF ns])
  with m have o: "bt (Opt (Group 2 (Plus (NoneOf ''/:'')))) ?K3 ?s0 = Some m" by simp
  have "\<exists>n s1. n \<le> length ?run \<and> rest s1 = drop n url \<and> ?K3 s1 = Some m"
  proof (cases "bt (Group 2 (Plus (NoneOf ''/:''))) ?K3 ?s0")
    case None
    with o have "?K3 ?s0 = Some m" by (simp only: bt.simps option.case)
    then show ?thesis by (intro exI[of _ 0] exI[of _ ?s0]) simp
  next
    case (Some m')
    with o have "bt (Group 2 (Plus (NoneOf ''/:''))) ?K3 ?s0 = Some m"
      by (simp only: bt.simps option.case)
    from bt_Group_Plus_run[OF this] obtain n where
      n: "n \<le> length url" "\<forall>x \<in> set (take n url). ?P x" and
      k: "?K3 (?s0\<lparr>pos := pos ?s0 + n, rest := drop n (rest ?s0),
                    marks := (marks ?s0)(2 \<mapsto> (pos ?s0, pos ?s0 + n))\<rparr>) = Some m"
      by auto
    have "n \<le> length ?run"
    proof (rule length_takeWhile_less_P_nth[OF _ n(1)])
      fix i assume "i < n"
      with n(1) have "url ! i \<in> set (take n url)" by (metis in_set_conv_nth length_take min.absorb2 nth_take)
      with n(2) show "?P (url ! i)" by blast
    qed
    with k show ?thesis
      by (intro exI[of _ n]
                exI[of _ "?s0\<lparr>pos := pos ?s0 + n, rest := drop n (rest ?s0),
                              marks := (marks ?s0)(2 \<mapsto> (pos ?s0, pos ?s0 + n))\<rparr>"]) simp
  qed
  then obtain n s1 where n: "n \<le> length ?run" and r: "rest s1 = drop n url"
    and k: "?K3 s1 = Some m" by blast
  from port_newline[OF k] r have "newline \<notin> set (butlast (drop n url))" by simp
  moreover have "after_host url = drop (length ?run - n) (drop n url)" using n ah by simp
  then have "set (butlast (after_host url)) \<subseteq> set (butlast (drop n url))"
    by (simp add: drop_butlast[symmetric] set_drop_subset del: drop_drop)
  ultimately show ?thesis by auto
qed

lemma parse_url_relative:
  assumes ne: "url \<noteq> []" and hd: "hd url \<notin> set ''/:''" and nosep: "\<not> contains ''://'' url"
  shows "newline \<notin> set (butlast (after_host url)) \<Longrightarrow> length (port_digits url) \<le> int_max_str_digits \<Longrightarrow>
         \<exists>path off.
           parse_url url =
             Inr (None, Some (takeWhile (\<lambda>c. c \<notin> set ''/:'') url),
                  (if port_digits url = [] then None else Some (int_of_digits (port_digits url))),
                  path, off) \<and>
           path \<noteq> Some url"
    and "newline \<notin> set (butlast (after_host url)) \<Longrightarrow> int_max_str_digits < length (port_digits url) \<Longrightarrow>
         parse_url url = Inl ValueError"
    and "newline \<in> set (butlast (after_host url)) \<Longrightarrow> parse_url url = Inl AttributeError"
proof -
  let ?run = "takeWhile (\<lambda>c. c \<notin> set ''/:'') url"
  have run: "0 < length ?run" using ne hd by (cases url) auto
  {
    assume nonl: "newline \<notin> set (butlast (after_host url))"
    from host_run[OF ne hd nosep nonl] obtain m where
      m: "re_search URL_PATTERN url = Some m" "marks m 1 = None" "marks m 2 = Some (0, length ?run)"
         "group url m 3 = (if port_digits url = [] then None else Some (port_digits url))"
         "\<forall>a b. marks m 4 = Some (a, b) \<longrightarrow> length ?run \<le> a" by blast
    have g1: "group url m 1 = None" using m(2) by (simp add: group_def)
    have g2: "group url m 2 = Some ?run"
      using m(3) by (simp add: group_def takeWhile_eq_take[symmetric])
    have g4: "group url m 4 \<noteq> Some url"
    proof (cases "marks m 4")
      case None
      then show ?thesis by (simp add: group_def)
    next
      case (Some ab)
      obtain a b where ab: "ab = (a, b)" by (cases ab)
      from Some m(5) ab have "length ?run \<le> a" by simp
      with run have "0 < a" by (rule less_le_trans)
      then have "length (take (b - a) (drop a url)) < length url" using ne by (cases url) auto
      then have "take (b - a) (drop a url) \<noteq> url" by (metis less_irrefl)
      with Some ab show ?thesis by (simp add: group_def)
    qed
    {
      assume "length (port_digits url) \<le> int_max_str_digits"
      with m(1,4) g1 g2 g4 show "\<exists>path off.
           parse_url url =
             Inr (None, Some ?run,
                  (if port_digits url = [] then None else Some (int_of_digits (port_digits url))),
                  path, off) \<and>
           path \<noteq> Some url"
        by (simp add: parse_url_def Let_def py_int_str_def)
    }
    {
      assume "int_max_str_digits < length (port_digits url)"
      moreover from this have "port_digits url \<noteq> []" by auto
      ultimately show "parse_url url = Inl ValueError"
        using m(1,4) by (simp add: parse_url_def Let_def py_int_str_def)
    }
  }
  {
    assume nl: "newline \<in> set (butlast (after_host url))"
    have "re_search URL_PATTERN url = None"
    proof (cases "re_search URL_PATTERN url")
      case None
      then show ?thesis .
    next
      case (Some m)
      from host_newline[OF nosep Some] nl show ?thesis by simp
    qed
    then show "parse_url url = Inl AttributeError" by (simp add: parse_url_def)
  }
qed

lemma nines_no_scheme: "\<not> contains ''://'' (replicate n CHR ''9'' @ ''/p'')"
  by (induction n) auto

lemma nines_port:
  "port_digits (''h:'' @ replicate n CHR ''9'' @ ''/p'') = replicate n CHR ''9'' \<and>
   newline \<notin> set (butlast (after_host (''h:'' @ replicate n CHR ''9'' @ ''/p'')))"
proof -
  have a: "after_host (''h:'' @ replicate n CHR ''9'' @ ''/p'') = CHR '':'' # replicate n CHR ''9'' @ ''/p''"
    by (simp add: after_host_def)
  have "takeWhile (cc_match (Between CHR ''0'' CHR ''9'')) (replicate n CHR ''9'' @ ''/p'')
        = replicate n CHR ''9'' @ takeWhile (cc_match (Between CHR ''0'' CHR ''9'')) ''/p''"
    by (rule takeWhile_append2) simp
  then have "port_digits (''h:'' @ replicate n CHR ''9'' @ ''/p'') = replicate n CHR ''9''"
    by (simp add: port_digits_def after_host_def digits_after_colon_def)
  moreover have "newline \<notin> set (butlast (CHR '':'' # replicate n CHR ''9'' @ ''/p''))"
    by (simp add: butlast_append newline_def)
  ultimately show ?thesis by (simp only: a) simp
qed

text \<open>
  Claim C10, as amended.  Take a string that holds no \<open>://\<close> and whose first character is
  neither \<open>/\<close> nor \<open>:\<close>, and call host the longest leading run of characters other than
  \<open>/\<close> and \<open>:\<close>.  If what follows the host holds no newline but possibly a last one, and
  the digits after a colon that follows the host are no more than \<open>int\<close> converts, then
  \<open>parse_url\<close> returns, with no prefix, with that host, and with those digits as the port,
  so the path it returns is never the whole string.  If the digits are more than \<open>int\<close>
  converts, \<open>parse_url\<close> raises \<open>ValueError\<close>; if a newline that is not the last
  character follows the host, the pattern does not match and \<open>parse_url\<close> raises
  \<open>AttributeError\<close>.  \<open>user/test/Cerebro\<close> gives the host \<open>user\<close> and the path
  \<open>/test/Cerebro\<close>.
\<close>

theorem parse_url_relative_host:
  "(\<forall>url. url \<noteq> [] \<and> hd url \<notin> set ''/:'' \<and> \<not> contains ''://'' url \<longrightarrow>
      (newline \<notin> set (butlast (after_host url)) \<and> length (port_digits url) \<le> int_max_str_digits \<longrightarrow>
         (\<exists>path off.
            parse_url url =
              Inr (None, Some (takeWhile (\<lambda>c. c \<notin> set ''/:'') url),
                   (if port_digits url = [] then None else Some (int_of_digits (port_digits url))),
                   path, off) \<and>
            path \<noteq> Some url)) \<and>
      (newline \<notin> set (butlast (after_host url)) \<and> int_max_str_digits < length (port_digits url) \<longrightarrow>
         parse_url url = Inl ValueError) \<and>
      (newline \<in> set (butlast (after_host url)) \<longrightarrow> parse_url url = Inl AttributeError))
   \<and> parse_url ''user/test/Cerebro'' = Inr (None, Some ''user'', None, Some ''/test/Cerebro'', 4)"
proof (intro conjI allI impI)
  fix url
  assume "url \<noteq> [] \<and> hd url \<notin> set ''/:'' \<and> \<not> contains ''://'' url"
    and "newline \<notin> set (butlast (after_host url)) \<and> length (port_digits url) \<le> int_max_str_digits"
  then show "\<exists>path off.
            parse_url url =
              Inr (None, Some (takeWhile (\<lambda>c. c \<notin> set ''/:'') url),
                   (if port_digits url = [] then None else Some (int_of_digits (port_digits url))),
                   path, off) \<and>
            path \<noteq> Some url"
    using parse_url_relative(1)[of url] by blast
next
  fix url
  assume "url \<noteq> [] \<and> hd url \<notin> set ''/:'' \<and> \<not> contains ''://'' url"
    and "newline \<notin> set (butlast (after_host url)) \<and> int_max_str_digits < length (port_digits url)"
  then show "parse_url url = Inl ValueError"
    using parse_url_relative(2)[of url] by blast
next
  fix url
  assume "url \<noteq> [] \<and> hd url \<notin> set ''/:'' \<and> \<not> contains ''://'' url"
    and "newline \<in> set (butlast (after_host url))"
  then show "parse_url url = Inl AttributeError"
    using parse_url_relative(3)[of url] by blast
next
  show "parse_url ''user/test/Cerebro'' = Inr (None, Some ''user'', None, Some ''/test/Cerebro'', 4)"
    by code_simp
qed

theorem parse_url_relative_host_witness:
  "''data:80/run1'' \<noteq> [] \<and> hd ''data:80/run1'' \<notin> set ''/:'' \<and> \<not> contains ''://'' ''data:80/run1'' \<and>
   newline \<notin> set (butlast (after_host ''data:80/run1'')) \<and>
   length (port_digits ''data:80/run1'') \<le> int_max_str_digits \<and>
   (\<exists>path off. parse_url ''data:80/run1'' = Inr (None, Some ''data'', Some 80, path, off) \<and>
                path \<noteq> Some ''data:80/run1'') \<and>
   int_max_str_digits < length (port_digits (''h:'' @ replicate 4301 CHR ''9'' @ ''/p'')) \<and>
   parse_url (''h:'' @ replicate 4301 CHR ''9'' @ ''/p'') = Inl ValueError \<and>
   newline \<in> set (butlast (after_host (''a/b'' @ [newline] @ ''c''))) \<and>
   parse_url (''a/b'' @ [newline] @ ''c'') = Inl AttributeError"
proof -
  have h: "''data:80/run1'' \<noteq> [] \<and> hd ''data:80/run1'' \<notin> set ''/:'' \<and>
           \<not> contains ''://'' ''data:80/run1''"
    by simp
  have g: "newline \<notin> set (butlast (after_host ''data:80/run1'')) \<and>
           length (port_digits ''data:80/run1'') \<le> int_max_str_digits"
    by code_simp
  have p: "port_digits ''data:80/run1'' = ''80''" "int_of_digits ''80'' = 80"
    by code_simp+
  have h2: "''h:'' @ replicate 4301 CHR ''9'' @ ''/p'' \<noteq> [] \<and>
            hd (''h:'' @ replicate 4301 CHR ''9'' @ ''/p'') \<notin> set ''/:'' \<and>
            \<not> contains ''://'' (''h:'' @ replicate 4301 CHR ''9'' @ ''/p'')"
    using nines_no_scheme[of 4301] by simp
  have g2: "newline \<notin> set (butlast (after_host (''h:'' @ replicate 4301 CHR ''9'' @ ''/p''))) \<and>
            int_max_str_digits < length (port_digits (''h:'' @ replicate 4301 CHR ''9'' @ ''/p''))"
    using nines_port[of 4301] by (simp add: int_max_str_digits_def)
  have h3: "''a/b'' @ [newline] @ ''c'' \<noteq> [] \<and> hd (''a/b'' @ [newline] @ ''c'') \<notin> set ''/:'' \<and>
            \<not> contains ''://'' (''a/b'' @ [newline] @ ''c'')"
    by (simp add: newline_def)
  have g3: "newline \<in> set (butlast (after_host (''a/b'' @ [newline] @ ''c'')))"
    by (simp add: after_host_def)
  from parse_url_relative_host[THEN conjunct1, rule_format, OF h, THEN conjunct1, rule_format, OF g]
       parse_url_relative_host[THEN conjunct1, rule_format, OF h2, THEN conjunct2, THEN conjunct1,
                               rule_format, OF g2]
       parse_url_relative_host[THEN conjunct1, rule_format, OF h3, THEN conjunct2, THEN conjunct2,
                               rule_format, OF g3]
       h g p g2 g3
  show ?thesis by simp
qed

text \<open>
  Claim C10 as stated fails on a string with a newline inside: the pattern does not match,
  \<open>re.search\<close> gives \<open>None\<close>, and \<open>parse_url\<close> raises instead of returning a host.
\<close>

theorem parse_url_relative_no_match:
  "hd (''a/b'' @ [newline] @ ''c'') \<notin> set ''/:'' \<and> \<not> contains ''://'' (''a/b'' @ [newline] @ ''c'') \<and>
   parse_url (''a/b'' @ [newline] @ ''c'') = Inl AttributeError"
  by code_simp

section \<open>\<open>_check_url\<close>\<close>

text \<open>
  Claim C5.  \<open>_check_url\<close> raises its \<open>ValueError\<close> (the \<open>InvalidLocationError\<close> of the
  specification) exactly when the prefix is present and is not \<open>hdfs://\<close>, or the path is
  absent or empty, and returns otherwise; construction then fails with that error before
  any connection is tried.  \<open>s3://bucket/key\<close> is rejected; \<open>hdfs://nn:8020/a/b\<close> and
  \<open>/a/b\<close> pass.
\<close>

theorem check_url_fails_iff:
  "(check_url url prefix path = Inl ValueError \<longleftrightarrow>
      (prefix \<noteq> None \<and> prefix \<noteq> Some ''hdfs://'') \<or> path = None \<or> path = Some [])
   \<and> (check_url url prefix path = Inr () \<longleftrightarrow>
      (prefix = None \<or> prefix = Some ''hdfs://'') \<and> path \<noteq> None \<and> path \<noteq> Some [])
   \<and> (parse_url url = Inr (prefix, url_host, url_port, path, off) \<and>
      check_url url prefix path = Inl ValueError \<longrightarrow>
      init e base_init url host port user kerb_ticket extra_conf temp_dir = (Inl ValueError, []))
   \<and> parse_url ''s3://bucket/key'' = Inr (Some ''s3://'', Some ''bucket'', None, Some ''/key'', 11)
   \<and> check_url ''s3://bucket/key'' (Some ''s3://'') (Some ''/key'') = Inl ValueError
   \<and> check_url ''hdfs://nn:8020/a/b'' (Some ''hdfs://'') (Some ''/a/b'') = Inr ()
   \<and> check_url ''/a/b'' None (Some ''/a/b'') = Inr ()"
proof (intro conjI impI)
  show "check_url url prefix path = Inl ValueError \<longleftrightarrow>
      (prefix \<noteq> None \<and> prefix \<noteq> Some ''hdfs://'') \<or> path = None \<or> path = Some []"
    by (auto simp: check_url_def FS_PREFIX_def truthy_str_def split: option.splits)
  show "check_url url prefix path = Inr () \<longleftrightarrow>
      (prefix = None \<or> prefix = Some ''hdfs://'') \<and> path \<noteq> None \<and> path \<noteq> Some []"
    by (auto simp: check_url_def FS_PREFIX_def truthy_str_def split: option.splits)
  show "init e base_init url host port user kerb_ticket extra_conf temp_dir = (Inl ValueError, [])"
    if "parse_url url = Inr (prefix, url_host, url_port, path, off) \<and>
        check_url url prefix path = Inl ValueError"
    using that by (simp add: init_def)
  show "parse_url ''s3://bucket/key'' = Inr (Some ''s3://'', Some ''bucket'', None, Some ''/key'', 11)"
    by code_simp
  show "check_url ''s3://bucket/key'' (Some ''s3://'') (Some ''/key'') = Inl ValueError"
    by (simp add: check_url_def FS_PREFIX_def truthy_str_def)
  show "check_url ''hdfs://nn:8020/a/b'' (Some ''hdfs://'') (Some ''/a/b'') = Inr ()"
    by (simp add: check_url_def FS_PREFIX_def truthy_str_def)
  show "check_url ''/a/b'' None (Some ''/a/b'') = Inr ()"
    by (simp add: check_url_def FS_PREFIX_def truthy_str_def)
qed

theorem check_url_fails_iff_witness:
  "parse_url ''s3://bucket/key'' = Inr (Some ''s3://'', Some ''bucket'', None, Some ''/key'', 11) \<and>
   check_url ''s3://bucket/key'' (Some ''s3://'') (Some ''/key'') = Inl ValueError \<and>
   init \<lparr>connect = (\<lambda>kw. Some (HadoopFileSystem 0)), os_walk = (\<lambda>p. []),
         getmtime = (\<lambda>p. None), upload_ok = (\<lambda>h p. True)\<rparr>
        (\<lambda>p. None) ''s3://bucket/key'' None None None None None None = (Inl ValueError, [])"
proof -
  note t = check_url_fails_iff[of "''s3://bucket/key''" "Some ''s3://''" "Some ''/key''"
      "Some ''bucket''" None 11
      "\<lparr>connect = (\<lambda>kw. Some (HadoopFileSystem 0)), os_walk = (\<lambda>p. []),
        getmtime = (\<lambda>p. None), upload_ok = (\<lambda>h p. True)\<rparr>" "\<lambda>p. None" None None None None None None]
  have p: "parse_url ''s3://bucket/key'' =
           Inr (Some ''s3://'', Some ''bucket'', None, Some ''/key'', 11)"
    by code_simp
  from t have c: "check_url ''s3://bucket/key'' (Some ''s3://'') (Some ''/key'') = Inl ValueError"
    by simp
  from t p c show ?thesis by simp
qed

section \<open>Construction\<close>

lemma bt_Group_Plus_Some:
  assumes "bt (Group g (Plus c)) k s = Some res" and "tracks url s"
  shows "\<exists>n. 0 < n \<and> pos s + n \<le> length url \<and>
             k (s\<lparr>pos := pos s + n, rest := drop n (rest s),
                   marks := (marks s)(g \<mapsto> (pos s, pos s + n))\<rparr>) = Some res"
proof -
  from assms(1)
  have "greedy_plus c (\<lambda>p r. k (s\<lparr>pos := p, rest := r, marks := (marks s)(g \<mapsto> (pos s, p))\<rparr>))
          (pos s) (rest s) = Some res"
    by simp
  from greedy_plus_Some[OF this] obtain n where
    n: "0 < n" "n \<le> length (rest s)"
       "k (s\<lparr>pos := pos s + n, rest := drop n (rest s),
              marks := (marks s)(g \<mapsto> (pos s, pos s + n))\<rparr>) = Some res"
    by blast
  from assms(2) n(2) have "pos s + n \<le> length url" by (auto simp: tracks_def)
  with n show ?thesis by blast
qed

lemma URL_PATTERN_group2:
  assumes "re_search URL_PATTERN url = Some m" and "marks m 2 = Some (a, b)"
  shows "a < b \<and> b \<le> length url"
proof -
  let ?s0 = "\<lparr>pos = 0, rest = url, marks = (\<lambda>_. None)\<rparr>"
  let ?g1 = "Opt (Group 1 (Seq (Plus AnyChar)
                (Seq (Atom (Lit CHR '':'')) (Seq (Atom (Lit CHR ''/'')) (Atom (Lit CHR ''/''))))))"
  let ?r = "Seq (Opt (Seq (Atom (OneOf '':'')) (Group 3 (Plus (Between CHR ''0'' CHR ''9'')))))
             (Seq (Opt (Group 4 (Plus AnyChar))) Eol)"
  have t0: "tracks url ?s0" by (simp add: tracks_def)
  have keep: "marks m' 2 = marks s 2" if "bt ?r Some s = Some m'" "tracks url s" for s m'
    using bt_cont[OF that] by auto
  from assms(1) have "bt ?g1 (bt (Opt (Group 2 (Plus (NoneOf ''/:'')))) (bt ?r Some)) ?s0 = Some m"
    by (simp only: URL_PATTERN_def re_search_Bol bt_Seq)
  from bt_cont[OF this t0] obtain s1 where
    s1: "bt (Opt (Group 2 (Plus (NoneOf ''/:'')))) (bt ?r Some) s1 = Some m" "tracks url s1"
        "marks s1 2 = None" by auto
  show ?thesis
  proof (cases "bt (Group 2 (Plus (NoneOf ''/:''))) (bt ?r Some) s1")
    case None
    with s1(1) have "bt ?r Some s1 = Some m" by (simp only: bt.simps option.case)
    from keep[OF this s1(2)] s1(3) assms(2) show ?thesis by simp
  next
    case (Some m')
    with s1(1) have "bt (Group 2 (Plus (NoneOf ''/:''))) (bt ?r Some) s1 = Some m"
      by (simp only: bt.simps option.case)
    from bt_Group_Plus_Some[OF this s1(2)] obtain n where
      n: "0 < n" "pos s1 + n \<le> length url"
         "bt ?r Some (s1\<lparr>pos := pos s1 + n, rest := drop n (rest s1),
                         marks := (marks s1)(2 \<mapsto> (pos s1, pos s1 + n))\<rparr>) = Some m"
      by blast
    have "tracks url (s1\<lparr>pos := pos s1 + n, rest := drop n (rest s1),
                         marks := (marks s1)(2 \<mapsto> (pos s1, pos s1 + n))\<rparr>)"
      using s1(2) n(2) by (auto simp: tracks_def add.commute)
    from keep[OF n(3) this] assms(2) n(1,2) show ?thesis by auto
  qed
qed

lemma parse_url_host_nonempty:
  assumes "parse_url url = Inr (prefix, Some h, port, path, off)"
  shows "h \<noteq> []"
proof -
  from assms obtain m where m: "re_search URL_PATTERN url = Some m"
    and g: "group url m 2 = Some h"
    by (auto simp: parse_url_def Let_def split: option.splits sum.splits)
  from g obtain a b where ab: "marks m 2 = Some (a, b)" and h: "h = take (b - a) (drop a url)"
    by (auto simp: group_def split: option.splits)
  from URL_PATTERN_group2[OF m ab] have "0 < length (take (b - a) (drop a url))" by simp
  with h show ?thesis by auto
qed

lemma init_Inr:
  assumes "init e base_init prefix_path host port user kerb_ticket extra_conf temp_dir = (Inr self, tr)"
    and "parse_url prefix_path = Inr (prefix, url_host, url_port, path, off)"
  shows "self_hdfs_kwargs self =
           \<lparr>kw_host = or_str_literal (or_str host url_host) ''default'',
            kw_port = or_int_literal (or_int port url_port) 0,
            kw_user = user, kw_kerb_ticket = kerb_ticket, kw_extra_conf = extra_conf\<rparr>
         \<and> connect e (self_hdfs_kwargs self) = Some (self_hdfs self)
         \<and> tr = [Connect (self_hdfs_kwargs self) (Some (self_hdfs self))]
         \<and> self_temp_dir self = temp_dir"
  using assms
  by (auto simp: init_def Let_def call_factory_def get_filesystem_fn_def
           split: sum.splits option.splits prod.splits)

text \<open>
  Claim C6, as amended.  The host handed to the connection is the \<open>host\<close> argument when
  it is given and not empty, otherwise the host parsed from the URL, otherwise
  \<open>default\<close>; the port is the \<open>port\<close> argument when it is given and not \<open>0\<close>,
  otherwise the port parsed from the URL, otherwise \<open>0\<close>.
\<close>

theorem effective_host_port:
  "parse_url prefix_path = Inr (prefix, url_host, url_port, path, off) \<and>
   init e base_init prefix_path host port user kerb_ticket extra_conf temp_dir = (Inr self, tr) \<longrightarrow>
   kw_host (self_hdfs_kwargs self) =
     (case host of
        Some h \<Rightarrow> if h \<noteq> [] then h else (case url_host of Some u \<Rightarrow> u | None \<Rightarrow> ''default'')
      | None \<Rightarrow> (case url_host of Some u \<Rightarrow> u | None \<Rightarrow> ''default'')) \<and>
   kw_port (self_hdfs_kwargs self) =
     (case port of
        Some p \<Rightarrow> if p \<noteq> 0 then p else (case url_port of Some u \<Rightarrow> u | None \<Rightarrow> 0)
      | None \<Rightarrow> (case url_port of Some u \<Rightarrow> u | None \<Rightarrow> 0)) \<and>
   tr = [Connect (self_hdfs_kwargs self) (Some (get_filesystem self))]"
proof (intro impI, elim conjE)
  assume p: "parse_url prefix_path = Inr (prefix, url_host, url_port, path, off)"
    and i: "init e base_init prefix_path host port user kerb_ticket extra_conf temp_dir = (Inr self, tr)"
  have u: "\<And>u. url_host = Some u \<Longrightarrow> u \<noteq> []"
    using parse_url_host_nonempty p by blast
  from init_Inr[OF i p] u show "kw_host (self_hdfs_kwargs self) =
     (case host of
        Some h \<Rightarrow> if h \<noteq> [] then h else (case url_host of Some u \<Rightarrow> u | None \<Rightarrow> ''default'')
      | None \<Rightarrow> (case url_host of Some u \<Rightarrow> u | None \<Rightarrow> ''default'')) \<and>
   kw_port (self_hdfs_kwargs self) =
     (case port of
        Some p \<Rightarrow> if p \<noteq> 0 then p else (case url_port of Some u \<Rightarrow> u | None \<Rightarrow> 0)
      | None \<Rightarrow> (case url_port of Some u \<Rightarrow> u | None \<Rightarrow> 0)) \<and>
   tr = [Connect (self_hdfs_kwargs self) (Some (get_filesystem self))]"
    by (auto simp: or_str_literal_def or_str_def or_int_literal_def or_int_def truthy_str_def
                   truthy_int_def get_filesystem_def split: option.splits)
qed

theorem effective_host_port_witness:
  "parse_url ''hdfs://nn:8020/a/b'' = Inr (Some ''hdfs://'', Some ''nn'', Some 8020, Some ''/a/b'', 14) \<and>
   init (world True [] [] []) no_base_error ''hdfs://nn:8020/a/b'' (Some ''nn2'') None None None None None =
     (Inr \<lparr>self_temp_dir = None, self_url_prefix = ''hdfs://nn:8020'',
           self_hdfs_kwargs = \<lparr>kw_host = ''nn2'', kw_port = 8020, kw_user = None,
                               kw_kerb_ticket = None, kw_extra_conf = None\<rparr>,
           self_hdfs = HadoopFileSystem 1\<rparr>,
      [Connect \<lparr>kw_host = ''nn2'', kw_port = 8020, kw_user = None,
                kw_kerb_ticket = None, kw_extra_conf = None\<rparr> (Some (HadoopFileSystem 1))]) \<and>
   kw_host \<lparr>kw_host = ''nn2'', kw_port = 8020, kw_user = None,
            kw_kerb_ticket = None, kw_extra_conf = None\<rparr> = ''nn2'' \<and>
   kw_port \<lparr>kw_host = ''nn2'', kw_port = 8020, kw_user = None,
            kw_kerb_ticket = None, kw_extra_conf = None\<rparr> = 8020"
proof -
  have p: "parse_url ''hdfs://nn:8020/a/b'' =
           Inr (Some ''hdfs://'', Some ''nn'', Some 8020, Some ''/a/b'', 14)"
    by code_simp
  have i: "init (world True [] [] []) no_base_error ''hdfs://nn:8020/a/b'' (Some ''nn2'') None None None None None =
     (Inr \<lparr>self_temp_dir = None, self_url_prefix = ''hdfs://nn:8020'',
           self_hdfs_kwargs = \<lparr>kw_host = ''nn2'', kw_port = 8020, kw_user = None,
                               kw_kerb_ticket = None, kw_extra_conf = None\<rparr>,
           self_hdfs = HadoopFileSystem 1\<rparr>,
      [Connect \<lparr>kw_host = ''nn2'', kw_port = 8020, kw_user = None,
                kw_kerb_ticket = None, kw_extra_conf = None\<rparr> (Some (HadoopFileSystem 1))])"
    by code_simp
  from effective_host_port[rule_format, OF conjI, OF p i] p i show ?thesis by simp
qed

text \<open>
  Claim C6 as stated fails for an explicit port \<open>0\<close>: \<open>port or url_port\<close> takes \<open>0\<close>
  for false, and the port of the URL is used.
\<close>

theorem explicit_port_zero_overridden:
  "map_sum id (\<lambda>self. (kw_host (self_hdfs_kwargs self), kw_port (self_hdfs_kwargs self)))
     (fst (init (world True [] [] []) no_base_error ''hdfs://nn:8020/a/b''
             (Some ''nn2'') (Some 0) None None None None))
   = Inr (''nn2'', 8020)"
  by code_simp

lemma init_trace:
  "init e base_init prefix_path host port user kerb_ticket extra_conf temp_dir = (r, tr) \<Longrightarrow>
   connects tr \<le> 1"
  by (auto simp: init_def Let_def call_factory_def get_filesystem_fn_def
           split: sum.splits option.splits prod.splits)

lemma init_unreachable:
  assumes "parse_url prefix_path = Inr (prefix, url_host, url_port, path, off)"
    and "check_url prefix_path prefix path = Inr ()"
    and "\<forall>kw. connect e kw = None"
  shows "\<exists>kw. init e base_init prefix_path host port user kerb_ticket extra_conf temp_dir =
           (Inl ConnectError, [Connect kw None])"
  using assms by (simp add: init_def Let_def call_factory_def get_filesystem_fn_def)

text \<open>
  Claim C9.  A construction that completes has called the connection factory once, and
  \<open>get_filesystem\<close>, which reads the attribute and calls nothing, returns the connection
  that call gave.  No construction calls the factory more than once.  When the location is
  valid and the backend is out of reach, construction itself fails, with the error of the
  connection.
\<close>

theorem init_connects_once:
  "(init e base_init prefix_path host port user kerb_ticket extra_conf temp_dir = (Inr self, tr) \<longrightarrow>
      connects tr = 1 \<and> connections tr = [get_filesystem self] \<and>
      connect e (self_hdfs_kwargs self) = Some (get_filesystem self))
   \<and> (init e base_init prefix_path host port user kerb_ticket extra_conf temp_dir = (Inl err, tr) \<longrightarrow>
      connects tr \<le> 1)
   \<and> (parse_url prefix_path = Inr (prefix, url_host, url_port, path, off) \<and>
      check_url prefix_path prefix path = Inr () \<and> (\<forall>kw. connect e kw = None) \<longrightarrow>
      (\<exists>kw. init e base_init prefix_path host port user kerb_ticket extra_conf temp_dir =
              (Inl ConnectError, [Connect kw None])))"
proof -
  have A: "init e base_init prefix_path host port user kerb_ticket extra_conf temp_dir = (Inr self, tr) \<longrightarrow>
      connects tr = 1 \<and> connections tr = [get_filesystem self] \<and>
      connect e (self_hdfs_kwargs self) = Some (get_filesystem self)"
  proof
    assume i: "init e base_init prefix_path host port user kerb_ticket extra_conf temp_dir = (Inr self, tr)"
    then obtain prefix' url_host' url_port' path' off' where
      "parse_url prefix_path = Inr (prefix', url_host', url_port', path', off')"
      by (auto simp: init_def split: sum.splits)
    from init_Inr[OF i this]
    have "connect e (self_hdfs_kwargs self) = Some (self_hdfs self)"
      and "tr = [Connect (self_hdfs_kwargs self) (Some (self_hdfs self))]" by blast+
    then show "connects tr = 1 \<and> connections tr = [get_filesystem self] \<and>
          connect e (self_hdfs_kwargs self) = Some (get_filesystem self)"
      by (simp add: get_filesystem_def)
  qed
  have B: "init e base_init prefix_path host port user kerb_ticket extra_conf temp_dir = (Inl err, tr) \<longrightarrow>
      connects tr \<le> 1"
    using init_trace by blast
  have C: "parse_url prefix_path = Inr (prefix, url_host, url_port, path, off) \<and>
      check_url prefix_path prefix path = Inr () \<and> (\<forall>kw. connect e kw = None) \<longrightarrow>
      (\<exists>kw. init e base_init prefix_path host port user kerb_ticket extra_conf temp_dir =
              (Inl ConnectError, [Connect kw None]))"
    using init_unreachable by blast
  from A B C show ?thesis by (intro conjI)
qed

theorem init_connects_once_witness:
  "connects (snd (init (world True [] [] []) no_base_error ''hdfs:///a/b'' None None None None None None)) = 1 \<and>
   map_sum id get_filesystem
     (fst (init (world True [] [] []) no_base_error ''hdfs:///a/b'' None None None None None None)) =
     Inr (HadoopFileSystem 1) \<and>
   parse_url ''hdfs:///a/b'' = Inr (Some ''hdfs://'', None, None, Some ''/a/b'', 7) \<and>
   check_url ''hdfs:///a/b'' (Some ''hdfs://'') (Some ''/a/b'') = Inr () \<and>
   (\<forall>kw. connect (world False [] [] []) kw = None) \<and>
   (\<exists>kw. init (world False [] [] []) no_base_error ''hdfs:///a/b'' None None None None None None =
           (Inl ConnectError, [Connect kw None]))"
proof -
  let ?self = "\<lparr>self_temp_dir = None, self_url_prefix = ''hdfs://'',
                 self_hdfs_kwargs = example_kwargs, self_hdfs = HadoopFileSystem 1\<rparr>"
  have i: "init (world True [] [] []) no_base_error ''hdfs:///a/b'' None None None None None None =
           (Inr ?self, [Connect example_kwargs (Some (HadoopFileSystem 1))])"
    by code_simp
  have p: "parse_url ''hdfs:///a/b'' = Inr (Some ''hdfs://'', None, None, Some ''/a/b'', 7)"
    by code_simp
  have c: "check_url ''hdfs:///a/b'' (Some ''hdfs://'') (Some ''/a/b'') = Inr ()"
    by (simp add: check_url_def FS_PREFIX_def truthy_str_def)
  have u: "\<forall>kw. connect (world False [] [] []) kw = None" by (simp add: world_def)
  from init_connects_once[THEN conjunct1, rule_format, OF i]
  have "connects [Connect example_kwargs (Some (HadoopFileSystem 1))] = 1"
    and "get_filesystem ?self = HadoopFileSystem 1" by simp_all
  moreover from init_connects_once[THEN conjunct2, THEN conjunct2, rule_format,
      of "''hdfs:///a/b''" "Some ''hdfs://''" None None "Some ''/a/b''" 7 "world False [] [] []"
         no_base_error None None None None None None] p c u
  have "\<exists>kw. init (world False [] [] []) no_base_error ''hdfs:///a/b'' None None None None None None =
           (Inl ConnectError, [Connect kw None])" by blast
  ultimately show ?thesis using i p c u by simp
qed

section \<open>The loops of \<open>fn\<close>\<close>

lemma sync_files_flat:
  "sync_files e hdfs_dir local_dir files ledger =
   sync_flat e (map (\<lambda>file. (os_path_join local_dir file, os_path_join hdfs_dir file)) files) ledger"
  by (induction files arbitrary: ledger) (auto simp: Let_def split: option.splits)

lemma sync_flat_append:
  "sync_flat e (xs @ ys) ledger =
     (case sync_flat e xs ledger of
        (ledger', tr, Some err) \<Rightarrow> (ledger', tr, Some err)
      | (ledger', tr, None) \<Rightarrow>
          (case sync_flat e ys ledger' of (ledger'', tr', err) \<Rightarrow> (ledger'', tr @ tr', err)))"
proof (induction xs arbitrary: ledger)
  case Nil
  then show ?case by (simp split: prod.splits)
next
  case (Cons x xs)
  obtain lp hp where x: "x = (lp, hp)" by (cases x)
  show ?case
  proof (cases "getmtime e lp")
    case None
    then show ?thesis by (simp add: x)
  next
    case (Some mt)
    show ?thesis
    proof (cases "case ledger lp of None \<Rightarrow> False | Some recorded \<Rightarrow> py_int mt \<le> recorded")
      case True
      with Some show ?thesis by (simp add: x Cons.IH)
    next
      case False
      show ?thesis
      proof (cases "upload_ok e hp lp")
        case no: False
        with Some False show ?thesis by (simp add: x)
      next
        case yes: True
        define L where "L = ledger(lp \<mapsto> py_int mt)"
        obtain L1 tr1 r1 where r: "sync_flat e xs L = (L1, tr1, r1)" by (cases "sync_flat e xs L")
        obtain L2 tr2 r2 where r2: "sync_flat e ys L1 = (L2, tr2, r2)" by (cases "sync_flat e ys L1")
        have h: "sync_flat e (x # xs) ledger = (L1, Upload hp lp True # tr1, r1)"
          using Some False yes r by (simp add: x L_def)
        have "sync_flat e ((x # xs) @ ys) ledger =
              (case sync_flat e (xs @ ys) L of (l', tr, err) \<Rightarrow> (l', Upload hp lp True # tr, err))"
          using Some False yes by (simp add: x L_def)
        also have "\<dots> = (case r1 of Some err \<Rightarrow> (L1, Upload hp lp True # tr1, Some err)
                          | None \<Rightarrow> (L2, Upload hp lp True # tr1 @ tr2, r2))"
          by (simp add: Cons.IH[of L] r r2 split: option.splits)
        also have "\<dots> = (case sync_flat e (x # xs) ledger of
                            (ledger', tr, Some err) \<Rightarrow> (ledger', tr, Some err)
                          | (ledger', tr, None) \<Rightarrow>
                              (case sync_flat e ys ledger' of
                                 (ledger'', tr', err) \<Rightarrow> (ledger'', tr @ tr', err)))"
          by (simp add: h r2 split: option.splits)
        finally show ?thesis .
      qed
    qed
  qed
qed

lemma sync_dirs_flat:
  "sync_dirs e hdfs_root prefix w ledger = sync_flat e (targets hdfs_root prefix w) ledger"
proof (induction w arbitrary: ledger)
  case Nil
  then show ?case by (simp add: targets_def)
next
  case (Cons t w)
  obtain local_dir dirs files where t: "t = (local_dir, dirs, files)" by (cases t)
  have "targets hdfs_root prefix (t # w) =
        map (\<lambda>file. (os_path_join local_dir file,
                      os_path_join (os_path_join hdfs_root (drop prefix local_dir)) file)) files
        @ targets hdfs_root prefix w"
    by (simp add: targets_def t)
  then show ?case unfolding t
    by (simp add: sync_flat_append sync_files_flat Cons.IH Let_def targets_def split: prod.splits option.splits)
qed

lemma map_fst_targets: "map fst (targets hdfs_root prefix w) = visited w"
  by (induction w) (auto simp: targets_def visited_def comp_def)

lemma sync_flat_ConsE:
  assumes "sync_flat e ((lp, hp) # vs) L = (L', tr, err)"
  obtains (nomtime) "modified_ts e lp = None" "L' = L" "tr = []" "err = Some OSError"
  | (skip) ts where "modified_ts e lp = Some ts" "\<not> due L e lp" "sync_flat e vs L = (L', tr, err)"
  | (failed) ts where "modified_ts e lp = Some ts" "due L e lp" "\<not> upload_ok e hp lp"
      "L' = L" "tr = [Upload hp lp False]" "err = Some UploadError"
  | (uploaded) ts tr' where "modified_ts e lp = Some ts" "due L e lp" "upload_ok e hp lp"
      "sync_flat e vs (L(lp \<mapsto> ts)) = (L', tr', err)" "tr = Upload hp lp True # tr'"
proof (cases "getmtime e lp")
  case None
  with assms show ?thesis by (intro nomtime) (auto simp: modified_ts_def)
next
  case (Some mt)
  then have ts: "modified_ts e lp = Some (py_int mt)" by (simp add: modified_ts_def)
  show ?thesis
  proof (cases "due L e lp")
    case False
    with ts have "case L lp of None \<Rightarrow> False | Some recorded \<Rightarrow> py_int mt \<le> recorded"
      by (auto simp: due_def split: option.splits)
    with assms Some have "sync_flat e vs L = (L', tr, err)" by simp
    with ts False show ?thesis by (rule skip)
  next
    case True
    with ts have n: "\<not> (case L lp of None \<Rightarrow> False | Some recorded \<Rightarrow> py_int mt \<le> recorded)"
      by (auto simp: due_def split: option.splits)
    show ?thesis
    proof (cases "upload_ok e hp lp")
      case no: False
      with assms Some n have "L' = L" "tr = [Upload hp lp False]" "err = Some UploadError"
        by simp_all
      with ts True no show ?thesis by (intro failed)
    next
      case yes: True
      obtain L1 tr1 r1 where r: "sync_flat e vs (L(lp \<mapsto> py_int mt)) = (L1, tr1, r1)"
        by (cases "sync_flat e vs (L(lp \<mapsto> py_int mt))")
      with assms Some n yes have "L' = L1" "tr = Upload hp lp True # tr1" "err = r1" by simp_all
      with ts True yes r show ?thesis by (intro uploaded[of "py_int mt" tr1]) simp_all
    qed
  qed
qed

lemma due_upd_same: "modified_ts e lp = Some ts \<Longrightarrow> \<not> due (L(lp \<mapsto> ts)) e lp"
  by (simp add: due_def)

lemma due_upd_other: "p \<noteq> lp \<Longrightarrow> due (L(lp \<mapsto> ts)) e p = due L e p"
  by (simp add: due_def split: option.splits)

lemma uploads_set: "lp \<in> set (uploads tr) \<longleftrightarrow> (\<exists>hp ok. Upload hp lp ok \<in> set tr)"
  by (induction tr rule: uploads.induct) auto




lemma connects_append: "connects (xs @ ys) = connects xs + connects ys"
  by (induction xs rule: connects.induct) auto

lemma connections_append: "connections (xs @ ys) = connections xs @ connections ys"
  by (induction xs rule: connections.induct) auto

text \<open>An upload in the trace is of a pair gone through, and of a path that was due.\<close>

lemma sync_flat_sound:
  "sync_flat e vs L = (L', tr, err) \<Longrightarrow> Upload hp lp ok \<in> set tr \<Longrightarrow>
   (lp, hp) \<in> set vs \<and> due L e lp"
proof (induction vs arbitrary: L L' tr err)
  case Nil
  then show ?case by simp
next
  case (Cons v vs)
  obtain lp0 hp0 where v: "v = (lp0, hp0)" by (cases v)
  from Cons.prems(1)[unfolded v] show ?case
  proof (cases rule: sync_flat_ConsE)
    case nomtime
    with Cons.prems(2) show ?thesis by simp
  next
    case (skip ts)
    from Cons.IH[OF skip(3) Cons.prems(2)] show ?thesis by simp
  next
    case (failed ts)
    with Cons.prems(2) show ?thesis by (simp add: v)
  next
    case (uploaded ts tr')
    show ?thesis
    proof (cases "Upload hp lp ok \<in> set tr'")
      case False
      with uploaded Cons.prems(2) show ?thesis by (simp add: v)
    next
      case True
      from Cons.IH[OF uploaded(4) True] have in_vs: "(lp, hp) \<in> set vs"
        and d: "due (L(lp0 \<mapsto> ts)) e lp" by blast+
      from d due_upd_same[OF uploaded(1)] have "lp \<noteq> lp0" by auto
      with d in_vs show ?thesis by (simp add: due_upd_other)
    qed
  qed
qed

lemma sync_flat_no_connect:
  "sync_flat e vs L = (L', tr, err) \<Longrightarrow> connects tr = 0 \<and> connections tr = []"
proof (induction vs arbitrary: L L' tr err)
  case Nil
  then show ?case by simp
next
  case (Cons v vs)
  obtain lp0 hp0 where v: "v = (lp0, hp0)" by (cases v)
  from Cons.prems(1)[unfolded v] show ?case
  proof (cases rule: sync_flat_ConsE)
    case (skip ts)
    from Cons.IH[OF skip(3)] show ?thesis .
  next
    case (uploaded ts tr')
    from Cons.IH[OF uploaded(4)] uploaded(5) show ?thesis by simp
  qed simp_all
qed

lemma sync_flat_err:
  "sync_flat e vs L = (L', tr, err) \<Longrightarrow> err = None \<or> err = Some OSError \<or> err = Some UploadError"
proof (induction vs arbitrary: L L' tr err)
  case Nil
  then show ?case by simp
next
  case (Cons v vs)
  obtain lp0 hp0 where v: "v = (lp0, hp0)" by (cases v)
  from Cons.prems(1)[unfolded v] show ?case
  proof (cases rule: sync_flat_ConsE)
    case (skip ts)
    from Cons.IH[OF skip(3)] show ?thesis .
  next
    case (uploaded ts tr')
    from Cons.IH[OF uploaded(4)] show ?thesis .
  qed simp_all
qed

text \<open>No path is uploaded twice in one pass.\<close>

lemma sync_flat_distinct:
  "sync_flat e vs L = (L', tr, err) \<Longrightarrow> distinct (uploads tr)"
proof (induction vs arbitrary: L L' tr err)
  case Nil
  then show ?case by simp
next
  case (Cons v vs)
  obtain lp0 hp0 where v: "v = (lp0, hp0)" by (cases v)
  from Cons.prems(1)[unfolded v] show ?case
  proof (cases rule: sync_flat_ConsE)
    case (skip ts)
    from Cons.IH[OF skip(3)] show ?thesis .
  next
    case (uploaded ts tr')
    have "lp0 \<notin> set (uploads tr')"
    proof
      assume "lp0 \<in> set (uploads tr')"
      then obtain hp ok where "Upload hp lp0 ok \<in> set tr'" by (auto simp: uploads_set)
      from sync_flat_sound[OF uploaded(4) this] due_upd_same[OF uploaded(1)] show False by simp
    qed
    with Cons.IH[OF uploaded(4)] uploaded(5) show ?thesis by simp
  qed simp_all
qed

text \<open>The ledger afterwards: the timestamp read, for a path uploaded; as before, for
  every other path.\<close>

lemma sync_flat_ledger:
  "sync_flat e vs L = (L', tr, err) \<Longrightarrow>
   L' p = (if p \<in> set (uploads_ok tr) then modified_ts e p else L p)"
proof (induction vs arbitrary: L L' tr err)
  case Nil
  then show ?case by simp
next
  case (Cons v vs)
  obtain lp0 hp0 where v: "v = (lp0, hp0)" by (cases v)
  from Cons.prems(1)[unfolded v] show ?case
  proof (cases rule: sync_flat_ConsE)
    case (skip ts)
    from Cons.IH[OF skip(3)] show ?thesis .
  next
    case (uploaded ts tr')
    from Cons.IH[OF uploaded(4)] uploaded(1,5) show ?thesis by simp
  qed simp_all
qed

text \<open>A pass that ends without an exception has read every timestamp and uploaded every
  path that was due, each upload going through.\<close>

lemma sync_flat_complete:
  "sync_flat e vs L = (L', tr, None) \<Longrightarrow> (lp, hp) \<in> set vs \<Longrightarrow>
   modified_ts e lp \<noteq> None \<and> (due L e lp \<longrightarrow> lp \<in> set (uploads tr))"
proof (induction vs arbitrary: L L' tr)
  case Nil
  then show ?case by simp
next
  case (Cons v vs)
  obtain lp0 hp0 where v: "v = (lp0, hp0)" by (cases v)
  from Cons.prems(1)[unfolded v] show ?case
  proof (cases rule: sync_flat_ConsE)
    case (skip ts)
    show ?thesis
    proof (cases "(lp, hp) \<in> set vs")
      case True
      from Cons.IH[OF skip(3) True] show ?thesis .
    next
      case False
      with Cons.prems(2) v have "lp = lp0" by simp
      with skip show ?thesis by simp
    qed
  next
    case (uploaded ts tr')
    show ?thesis
    proof (cases "lp = lp0")
      case True
      with uploaded show ?thesis by simp
    next
      case False
      with Cons.prems(2) v have "(lp, hp) \<in> set vs" by simp
      from Cons.IH[OF uploaded(4) this] have a: "modified_ts e lp \<noteq> None"
        and b: "due (L(lp0 \<mapsto> ts)) e lp \<longrightarrow> lp \<in> set (uploads tr')" by blast+
      have eq: "due (L(lp0 \<mapsto> ts)) e lp = due L e lp" using False by (rule due_upd_other)
      from b have "due L e lp \<longrightarrow> lp \<in> set (uploads tr')" unfolding eq .
      with a uploaded(5) show ?thesis by simp
    qed
  qed simp_all
qed

lemma sync_flat_all_ok:
  "sync_flat e vs L = (L', tr, err) \<Longrightarrow> err \<noteq> Some UploadError \<Longrightarrow> uploads_ok tr = uploads tr"
proof (induction vs arbitrary: L L' tr)
  case Nil
  then show ?case by simp
next
  case (Cons v vs)
  obtain lp0 hp0 where v: "v = (lp0, hp0)" by (cases v)
  from Cons.prems(1)[unfolded v] show ?case
  proof (cases rule: sync_flat_ConsE)
    case (skip ts)
    from Cons.IH[OF skip(3) Cons.prems(2)] show ?thesis .
  next
    case (failed ts)
    with Cons.prems(2) show ?thesis by simp
  next
    case (uploaded ts tr')
    from Cons.IH[OF uploaded(4) Cons.prems(2)] uploaded(5) show ?thesis by simp
  qed simp_all
qed

text \<open>After a pass without an exception nothing gone through is due.\<close>

lemma sync_flat_settled:
  assumes "sync_flat e vs L = (L', tr, None)" and "(lp, hp) \<in> set vs"
  shows "\<not> due L' e lp"
proof -
  from sync_flat_complete[OF assms] obtain ts where ts: "modified_ts e lp = Some ts"
    and c: "due L e lp \<longrightarrow> lp \<in> set (uploads tr)" by auto
  from sync_flat_all_ok[OF assms(1)] have ok: "uploads_ok tr = uploads tr" by simp
  show ?thesis
  proof (cases "lp \<in> set (uploads tr)")
    case True
    with sync_flat_ledger[OF assms(1), of lp] ok ts have "L' lp = Some ts" by simp
    with ts show ?thesis by (simp add: due_def)
  next
    case False
    with sync_flat_ledger[OF assms(1), of lp] ok have "L' lp = L lp" by simp
    moreover from False c have "\<not> due L e lp" by blast
    ultimately show ?thesis by (simp add: due_def split: option.splits)
  qed
qed

text \<open>Where nothing is due, a pass uploads nothing and leaves the ledger as it is.\<close>

lemma sync_flat_idle:
  "(\<And>lp hp. (lp, hp) \<in> set vs \<Longrightarrow> modified_ts e lp \<noteq> None \<and> \<not> due L e lp) \<Longrightarrow>
   sync_flat e vs L = (L, [], None)"
proof (induction vs)
  case Nil
  then show ?case by simp
next
  case (Cons v vs)
  obtain lp0 hp0 where v: "v = (lp0, hp0)" by (cases v)
  obtain L' tr err where r: "sync_flat e ((lp0, hp0) # vs) L = (L', tr, err)"
    by (cases "sync_flat e ((lp0, hp0) # vs) L")
  from Cons.prems[of lp0 hp0] v have h: "modified_ts e lp0 \<noteq> None" "\<not> due L e lp0" by simp_all
  have t: "sync_flat e vs L = (L, [], None)"
  proof (rule Cons.IH)
    fix lp hp assume "(lp, hp) \<in> set vs"
    then have "(lp, hp) \<in> set (v # vs)" by simp
    then show "modified_ts e lp \<noteq> None \<and> \<not> due L e lp" by (rule Cons.prems)
  qed
  from r h t have "(L', tr, err) = (L, [], None)"
    by (cases rule: sync_flat_ConsE) simp_all
  with r show ?case unfolding v by (rule trans)
qed


text \<open>Past pairs that are not due, a path that is due is the first upload.\<close>

lemma sync_flat_first:
  assumes "\<And>lp hp. (lp, hp) \<in> set pre \<Longrightarrow> modified_ts e lp \<noteq> None \<and> \<not> due L e lp"
    and "due L e lp" and "sync_flat e (pre @ (lp, hp) # post) L = (L', tr, err)"
  shows "\<exists>ok tr'. tr = Upload hp lp ok # tr'"
proof -
  from sync_flat_idle[of pre e L] assms(1) have "sync_flat e pre L = (L, [], None)" by blast
  with assms(3) have "sync_flat e ((lp, hp) # post) L = (L', tr, err)"
    by (simp add: sync_flat_append split: prod.splits)
  then show ?thesis
  proof (cases rule: sync_flat_ConsE)
    case nomtime
    with assms(2) show ?thesis by (simp add: due_def)
  next
    case (skip ts)
    with assms(2) show ?thesis by simp
  next
    case (failed ts)
    then show ?thesis by blast
  next
    case (uploaded ts tr')
    then show ?thesis by blast
  qed
qed

text \<open>One call of \<open>fn\<close>: the connection could not be made, or the loops ran.\<close>

lemma fn_cases:
  assumes "fn e c p = (c', tr, err)"
  obtains (unreachable) "fs (state c) = None" "connect e (factory c) = None" "c' = c"
      "tr = [Connect (factory c) None]" "err = Some ConnectError"
  | (connected) h trs where "fs (state c) = None" "connect e (factory c) = Some h"
      "tr = Connect (factory c) (Some h) # trs" "fs (state c') = Some h"
      "sync_flat e (targets (hdfs_root_path c) (length p + 1) (os_walk e p)) (uploaded (state c))
         = (uploaded (state c'), trs, err)"
      "factory c' = factory c" "hdfs_root_path c' = hdfs_root_path c"
  | (cached) h where "fs (state c) = Some h" "fs (state c') = Some h"
      "sync_flat e (targets (hdfs_root_path c) (length p + 1) (os_walk e p)) (uploaded (state c))
         = (uploaded (state c'), tr, err)"
      "factory c' = factory c" "hdfs_root_path c' = hdfs_root_path c"
proof (cases "fs (state c)")
  case None
  show ?thesis
  proof (cases "connect e (factory c)")
    case no: None
    with None assms show ?thesis
      by (intro unreachable) (auto simp: fn_def call_factory_def)
  next
    case (Some h)
    obtain L trs r where s: "sync_flat e (targets (hdfs_root_path c) (length p + 1) (os_walk e p))
       (uploaded (state c)) = (L, trs, r)"
      by (metis prod_cases3)
    with None Some assms show ?thesis
      by (intro connected[of h trs]) (auto simp: fn_def call_factory_def sync_dirs_flat Let_def)
  qed
next
  case (Some h)
  obtain L trs r where s: "sync_flat e (targets (hdfs_root_path c) (length p + 1) (os_walk e p))
     (uploaded (state c)) = (L, trs, r)"
    by (metis prod_cases3)
  with Some assms show ?thesis
    by (intro cached[of h]) (auto simp: fn_def sync_dirs_flat Let_def)
qed

text \<open>The uploads of a call are those of its loops, which start from the ledger of the
  closure and end in the ledger of the closure afterwards.\<close>

lemma fn_sync:
  assumes "fn e c p = (c', tr, err)" and "err \<noteq> Some ConnectError"
  shows "\<exists>trs. sync_flat e (targets (hdfs_root_path c) (length p + 1) (os_walk e p))
                 (uploaded (state c)) = (uploaded (state c'), trs, err) \<and>
               uploads tr = uploads trs \<and> uploads_ok tr = uploads_ok trs \<and>
               (\<forall>hp lp ok. Upload hp lp ok \<in> set tr \<longleftrightarrow> Upload hp lp ok \<in> set trs) \<and>
               (tr = trs \<or> (\<exists>ev. tr = ev # trs \<and> fs (state c) = None)) \<and>
               fs (state c') \<noteq> None \<and> hdfs_root_path c' = hdfs_root_path c"
  using assms(1)
proof (cases rule: fn_cases)
  case unreachable
  with assms(2) show ?thesis by simp
next
  case (connected h trs)
  then show ?thesis by (intro exI[of _ trs]) auto
next
  case (cached h)
  then show ?thesis by (intro exI[of _ tr]) auto
qed

lemma fn_ConnectError:
  assumes "fn e c p = (c', tr, Some ConnectError)"
  shows "c' = c \<and> tr = [Connect (factory c) None] \<and> fs (state c) = None"
  using assms
proof (cases rule: fn_cases)
  case (connected h trs)
  from sync_flat_err[OF connected(5)] show ?thesis by simp
next
  case (cached h)
  from sync_flat_err[OF cached(3)] show ?thesis by simp
qed simp

lemma due_cong: "modified_ts e2 lp = modified_ts e1 lp \<Longrightarrow> due L e2 lp = due L e1 lp"
  by (simp add: due_def)

lemma targets_visited: "(lp, hp) \<in> set (targets r n w) \<Longrightarrow> lp \<in> set (visited w)"
  by (metis map_fst_targets image_eqI fst_conv set_map)

lemma visited_targets: "lp \<in> set (visited w) \<Longrightarrow> \<exists>hp. (lp, hp) \<in> set (targets r n w)"
proof -
  assume "lp \<in> set (visited w)"
  then have "lp \<in> set (map fst (targets r n w))" by (simp only: map_fst_targets)
  then show ?thesis by force
qed



section \<open>The connection of a session\<close>

lemma fn_connect:
  assumes "fn e c p = (c', tr, err)"
  shows "connects tr = (if fs (state c) = None then 1 else 0)"
    and "fs (state c) = None \<Longrightarrow> fs (state c') = connect e (factory c)"
    and "fs (state c) = None \<Longrightarrow>
           connections tr = (case connect e (factory c) of None \<Rightarrow> [] | Some h \<Rightarrow> [h])"
    and "fs (state c) = Some h \<Longrightarrow> fs (state c') = Some h \<and> connections tr = []"
    and "factory c' = factory c"
proof -
  show "connects tr = (if fs (state c) = None then 1 else 0)"
    using assms
  proof (cases rule: fn_cases)
    case (connected h trs)
    with sync_flat_no_connect[OF connected(5)] show ?thesis by simp
  next
    case (cached h)
    with sync_flat_no_connect[OF cached(3)] show ?thesis by simp
  qed simp
  show "fs (state c') = connect e (factory c)" if "fs (state c) = None"
    using assms that by (cases rule: fn_cases) simp_all
  show "connections tr = (case connect e (factory c) of None \<Rightarrow> [] | Some h \<Rightarrow> [h])"
    if "fs (state c) = None"
    using assms
  proof (cases rule: fn_cases)
    case (connected h trs)
    with sync_flat_no_connect[OF connected(5)] show ?thesis by simp
  next
    case (cached h)
    with that show ?thesis by simp
  qed simp
  show "fs (state c') = Some h \<and> connections tr = []" if "fs (state c) = Some h"
    using assms
  proof (cases rule: fn_cases)
    case (cached h')
    with sync_flat_no_connect[OF cached(3)] that show ?thesis by simp
  qed (use that in simp_all)
  show "factory c' = factory c"
    using assms by (cases rule: fn_cases) simp_all
qed

lemma session_cached:
  "fs (state c) = Some h \<Longrightarrow> session calls c = (c', tr) \<Longrightarrow>
   fs (state c') = Some h \<and> connects tr = 0 \<and> connections tr = []"
proof (induction calls arbitrary: c c' tr)
  case Nil
  then show ?case by simp
next
  case (Cons call calls)
  obtain e p where call: "call = (e, p)" by (cases call)
  obtain c1 tr1 err1 where f: "fn e c p = (c1, tr1, err1)" by (metis prod_cases3)
  obtain c2 tr2 where s: "session calls c1 = (c2, tr2)" by (cases "session calls c1")
  from Cons.prems(2) f s have eq: "c' = c2" "tr = tr1 @ tr2" by (simp_all add: call)
  from fn_connect(1,4)[OF f] Cons.prems(1)
  have one: "fs (state c1) = Some h" "connects tr1 = 0" "connections tr1 = []" by simp_all
  from Cons.IH[OF one(1) s] one eq show ?case
    by (simp add: connects_append connections_append)
qed

lemma session_connections:
  "fs (state c) = None \<Longrightarrow> session calls c = (c', tr) \<Longrightarrow>
   length (connections tr) \<le> 1 \<and>
   fs (state c') = (case connections tr of [] \<Rightarrow> None | h # hs \<Rightarrow> Some h)"
proof (induction calls arbitrary: c c' tr)
  case Nil
  then show ?case by simp
next
  case (Cons call calls)
  obtain e p where call: "call = (e, p)" by (cases call)
  obtain c1 tr1 err1 where f: "fn e c p = (c1, tr1, err1)" by (metis prod_cases3)
  obtain c2 tr2 where s: "session calls c1 = (c2, tr2)" by (cases "session calls c1")
  from Cons.prems(2) f s have eq: "c' = c2" "tr = tr1 @ tr2" by (simp_all add: call)
  show ?case
  proof (cases "connect e (factory c)")
    case None
    with fn_connect(2,3)[OF f Cons.prems(1)]
    have "fs (state c1) = None" "connections tr1 = []" by simp_all
    with Cons.IH[OF this(1) s] eq show ?thesis by (simp add: connections_append)
  next
    case (Some h)
    with fn_connect(2,3)[OF f Cons.prems(1)]
    have one: "fs (state c1) = Some h" "connections tr1 = [h]" by simp_all
    from session_cached[OF one(1) s] one eq show ?thesis by (simp add: connections_append)
  qed
qed

text \<open>
  Claim C7, as amended.  Making the sync function connects to nothing: its cached
  connection is absent.  A call of it calls the connection factory once if no connection
  is cached when the call starts, and not at all otherwise; so the factory is called in the
  first call, and in a later call only when every call before it failed to connect.  A
  cached connection is never replaced: from then on no call of the session calls the
  factory, and a session makes one connection at most, however many calls it has.
\<close>

theorem sync_connects_lazily:
  "fs (state (sync_fn store_prefix self run_id)) = None
   \<and> (fn e c p = (c', tr, err) \<longrightarrow>
        connects tr = (if fs (state c) = None then 1 else 0) \<and>
        (fs (state c) = None \<longrightarrow> fs (state c') = connect e (factory c)) \<and>
        (\<forall>h. fs (state c) = Some h \<longrightarrow> fs (state c') = Some h \<and> connections tr = []))
   \<and> (\<forall>h. fs (state c) = Some h \<and> session calls c = (c'', trs) \<longrightarrow>
        fs (state c'') = Some h \<and> connects trs = 0)
   \<and> (session calls (sync_fn store_prefix self run_id) = (c3, tr3) \<longrightarrow>
        length (connections tr3) \<le> 1 \<and>
        fs (state c3) = (case connections tr3 of [] \<Rightarrow> None | h # hs \<Rightarrow> Some h))"
proof (intro conjI impI allI)
  show f: "fs (state (sync_fn store_prefix self run_id)) = None" by (simp add: sync_fn_def)
  {
    assume a: "fn e c p = (c', tr, err)"
    show "connects tr = (if fs (state c) = None then 1 else 0)" by (rule fn_connect(1)[OF a])
    show "fs (state c') = connect e (factory c)" if "fs (state c) = None"
      by (rule fn_connect(2)[OF a that])
    show "fs (state c') = Some h" if "fs (state c) = Some h" for h
      using fn_connect(4)[OF a that] by simp
    show "connections tr = []" if "fs (state c) = Some h" for h
      using fn_connect(4)[OF a that] by simp
  }
  {
    fix h assume a: "fs (state c) = Some h \<and> session calls c = (c'', trs)"
    then show "fs (state c'') = Some h" using session_cached by blast
    from a show "connects trs = 0" using session_cached by blast
  }
  {
    assume a: "session calls (sync_fn store_prefix self run_id) = (c3, tr3)"
    from session_connections[OF f a] show "length (connections tr3) \<le> 1" by simp
    from session_connections[OF f a]
    show "fs (state c3) = (case connections tr3 of [] \<Rightarrow> None | h # hs \<Rightarrow> Some h)" by simp
  }
qed

theorem sync_connects_lazily_witness:
  "fs (state (sync_fn ''/store'' example_store ''run42'')) = None \<and>
   connects (fst (snd (fn (world True [] [] []) (sync_fn ''/store'' example_store ''run42'') ''/tmp/x''))) = 1 \<and>
   fs (state (fst (fn (world True [] [] []) (sync_fn ''/store'' example_store ''run42'') ''/tmp/x''))) =
     Some (HadoopFileSystem 1) \<and>
   connects (snd (session [(world True [] [] [], ''/tmp/x''), (world True [] [] [], ''/tmp/x'')]
       (fst (fn (world True [] [] []) (sync_fn ''/store'' example_store ''run42'') ''/tmp/x'')))) = 0 \<and>
   length (connections (snd (session
       [(world True [] [] [], ''/tmp/x''), (world True [] [] [], ''/tmp/x''), (world True [] [] [], ''/tmp/x'')]
       (sync_fn ''/store'' example_store ''run42'')))) \<le> 1"
proof -
  let ?e = "world True [] [] []" and ?c = "sync_fn ''/store'' example_store ''run42''"
  let ?r = "fn ?e ?c ''/tmp/x''"
  let ?s = "session [(?e, ''/tmp/x''), (?e, ''/tmp/x'')] (fst ?r)"
  let ?s3 = "session [(?e, ''/tmp/x''), (?e, ''/tmp/x''), (?e, ''/tmp/x'')] ?c"
  note t = sync_connects_lazily[where store_prefix = "''/store''" and self = example_store
      and run_id = "''run42''" and e = ?e and c = ?c and p = "''/tmp/x''" and c' = "fst ?r"
      and tr = "fst (snd ?r)" and err = "snd (snd ?r)"
      and calls = "[(?e, ''/tmp/x''), (?e, ''/tmp/x''), (?e, ''/tmp/x'')]"
      and ?c3.0 = "fst ?s3" and ?tr3.0 = "snd ?s3"]
  note t2 = sync_connects_lazily[where c = "fst ?r"
      and calls = "[(?e, ''/tmp/x''), (?e, ''/tmp/x'')]" and c'' = "fst ?s" and trs = "snd ?s"]
  have f: "fs (state ?c) = None" by (simp add: sync_fn_def)
  have k: "connect ?e (factory ?c) = Some (HadoopFileSystem 1)" by (simp add: world_def)
  from t f k have one: "connects (fst (snd ?r)) = 1" "fs (state (fst ?r)) = Some (HadoopFileSystem 1)"
    by simp_all
  from t2 one(2) have "connects (snd ?s) = 0" by simp
  moreover from t have "length (connections (snd ?s3)) \<le> 1" by simp
  ultimately show ?thesis using f one by simp
qed

text \<open>
  Claim C7 as stated fails when the first call cannot connect: the exception leaves the
  cached connection absent, and the second call calls the factory again.
\<close>

theorem sync_connects_again_after_failure:
  "connects (fst (snd (fn (world False [] [] []) (sync_fn ''/store'' example_store ''run42'') ''/tmp/x''))) = 1 \<and>
   snd (snd (fn (world False [] [] []) (sync_fn ''/store'' example_store ''run42'') ''/tmp/x'')) =
     Some ConnectError \<and>
   connects (fst (snd (fn (world True [] [] [])
       (fst (fn (world False [] [] []) (sync_fn ''/store'' example_store ''run42'') ''/tmp/x''))
       ''/tmp/x''))) = 1"
  by code_simp

section \<open>The scratch directory\<close>

lemma mkdtemp_Inr:
  "mkdtemp gettempdir names dir files = Inr (dirpath, files1) \<Longrightarrow>
   dirpath \<notin> files \<and> files1 = insert dirpath files"
  by (auto simp: mkdtemp_def Let_def find_Some_iff split: option.splits if_splits)

lemma rmtree_done:
  "dirpath \<in> files \<Longrightarrow> stops dirpath files = None \<Longrightarrow> rmtree stops dirpath files = (err, files') \<Longrightarrow>
   err = None \<and> dirpath \<notin> files' \<and> (\<forall>p. below dirpath p \<longrightarrow> p \<notin> files')"
  by (auto simp: rmtree_def)

lemma rmtree_stopped:
  "dirpath \<in> files \<Longrightarrow> stops dirpath files \<noteq> None \<Longrightarrow> rmtree stops dirpath files = (err, files') \<Longrightarrow>
   err = Some OSError \<and> dirpath \<in> files'"
  by (auto simp: rmtree_def below_def)

lemma rmtree_missing:
  "dirpath \<notin> files \<Longrightarrow> rmtree stops dirpath files = (err, files') \<Longrightarrow>
   err = Some OSError \<and> files' = files"
  by (auto simp: rmtree_def)

lemma scope_exit:
  assumes "mkdtemp gettempdir names (self_temp_dir self) files = Inr (dirpath, files1)"
    and "body dirpath files1 = (files2, outcome)"
    and "get_local_output_dir_fn self run_id gettempdir names stops body files = (files', result)"
  shows "\<exists>err. rmtree stops dirpath files2 = (err, files') \<and>
               result = (case err of Some x \<Rightarrow> Inl x | None \<Rightarrow> outcome)"
  using assms
  by (cases "rmtree stops dirpath files2")
     (auto simp: get_local_output_dir_fn_def local_run_path_def split: option.splits)

text \<open>
  Claim C8, as amended.  When \<open>mkdtemp\<close> has made the directory, it is a new one and the
  body finds it there; on every way out of the scope, whether the body returned a value
  or raised, \<open>rmtree\<close> is called on it.  If the body left the directory in place and
  every entry can be removed, the directory and all below it are gone after the scope
  and the outcome of the body is passed on.  If the body left it in place and some entry
  cannot be removed, the scope ends with the error of \<open>rmtree\<close> and the directory is
  still there.  If the body removed the directory, \<open>rmtree\<close> raises and the file system
  is as the body left it.
\<close>

theorem scratch_dir_removed:
  "mkdtemp gettempdir names (self_temp_dir self) files = Inr (dirpath, files1) \<and>
   body dirpath files1 = (files2, outcome) \<and>
   get_local_output_dir_fn self run_id gettempdir names stops body files = (files', result) \<longrightarrow>
   dirpath \<notin> files \<and> dirpath \<in> files1 \<and>
   (dirpath \<in> files2 \<and> stops dirpath files2 = None \<longrightarrow>
      result = outcome \<and> dirpath \<notin> files' \<and> (\<forall>p. below dirpath p \<longrightarrow> p \<notin> files')) \<and>
   (dirpath \<in> files2 \<and> stops dirpath files2 \<noteq> None \<longrightarrow> result = Inl OSError \<and> dirpath \<in> files') \<and>
   (dirpath \<notin> files2 \<longrightarrow> result = Inl OSError \<and> files' = files2)"
proof (intro impI, elim conjE)
  assume m: "mkdtemp gettempdir names (self_temp_dir self) files = Inr (dirpath, files1)"
    and b: "body dirpath files1 = (files2, outcome)"
    and g: "get_local_output_dir_fn self run_id gettempdir names stops body files = (files', result)"
  from mkdtemp_Inr[OF m] have fresh: "dirpath \<notin> files" "dirpath \<in> files1" by simp_all
  from scope_exit[OF m b g] obtain err where
    r: "rmtree stops dirpath files2 = (err, files')"
    and res: "result = (case err of Some x \<Rightarrow> Inl x | None \<Rightarrow> outcome)" by blast
  have A: "dirpath \<in> files2 \<and> stops dirpath files2 = None \<longrightarrow>
      result = outcome \<and> dirpath \<notin> files' \<and> (\<forall>p. below dirpath p \<longrightarrow> p \<notin> files')"
    using rmtree_done[OF _ _ r] res by auto
  have B: "dirpath \<in> files2 \<and> stops dirpath files2 \<noteq> None \<longrightarrow> result = Inl OSError \<and> dirpath \<in> files'"
    using rmtree_stopped[OF _ _ r] res by auto
  have C: "dirpath \<notin> files2 \<longrightarrow> result = Inl OSError \<and> files' = files2"
    using rmtree_missing[OF _ r] res by auto
  from fresh A B C show "dirpath \<notin> files \<and> dirpath \<in> files1 \<and>
   (dirpath \<in> files2 \<and> stops dirpath files2 = None \<longrightarrow>
      result = outcome \<and> dirpath \<notin> files' \<and> (\<forall>p. below dirpath p \<longrightarrow> p \<notin> files')) \<and>
   (dirpath \<in> files2 \<and> stops dirpath files2 \<noteq> None \<longrightarrow> result = Inl OSError \<and> dirpath \<in> files') \<and>
   (dirpath \<notin> files2 \<longrightarrow> result = Inl OSError \<and> files' = files2)"
    by (intro conjI)
qed

theorem scratch_dir_removed_witness:
  "mkdtemp ''/tmp'' [''abc''] (self_temp_dir example_store) {''/tmp''} =
     Inr (''/tmp/tmpabc'', {''/tmp/tmpabc'', ''/tmp''}) \<and>
   ''/tmp/tmpabc'' \<in> fst (writes_model_and_raises ''/tmp/tmpabc'' {''/tmp/tmpabc'', ''/tmp''}) \<and>
   removable ''/tmp/tmpabc'' (fst (writes_model_and_raises ''/tmp/tmpabc'' {''/tmp/tmpabc'', ''/tmp''})) = None \<and>
   ''/tmp/tmpabc'' \<notin> fst (get_local_output_dir_fn example_store ''run42'' ''/tmp'' [''abc'']
        removable writes_model_and_raises {''/tmp''}) \<and>
   ''/tmp/tmpabc/model.h5'' \<notin> fst (get_local_output_dir_fn example_store ''run42'' ''/tmp'' [''abc'']
        removable writes_model_and_raises {''/tmp''}) \<and>
   snd (get_local_output_dir_fn example_store ''run42'' ''/tmp'' [''abc'']
        removable writes_model_and_raises {''/tmp''}) = Inl UploadError"
proof -
  let ?g = "get_local_output_dir_fn example_store ''run42'' ''/tmp'' [''abc'']
              removable writes_model_and_raises {''/tmp''}"
  have m: "mkdtemp ''/tmp'' [''abc''] (self_temp_dir example_store) {''/tmp''} =
           Inr (''/tmp/tmpabc'', {''/tmp/tmpabc'', ''/tmp''})"
    by (simp add: mkdtemp_def example_store_def os_path_join_def)
  have b: "writes_model_and_raises ''/tmp/tmpabc'' {''/tmp/tmpabc'', ''/tmp''} =
           (insert ''/tmp/tmpabc/model.h5'' {''/tmp/tmpabc'', ''/tmp''}, Inl UploadError)"
    by (simp add: writes_model_and_raises_def)
  have g: "?g = (fst ?g, snd ?g)" by simp
  have bl: "below ''/tmp/tmpabc'' ''/tmp/tmpabc/model.h5''" by (simp add: below_def)
  have st: "removable ''/tmp/tmpabc'' (insert ''/tmp/tmpabc/model.h5'' {''/tmp/tmpabc'', ''/tmp''}) = None"
    by (simp add: removable_def)
  from scratch_dir_removed[rule_format, OF conjI[OF m conjI[OF b g]]] bl m b st
  show ?thesis by simp
qed

text \<open>
  Claim C8 as stated fails when \<open>rmtree\<close> cannot remove an entry: it raises, the scope
  ends with its error, and the directory still exists.
\<close>

theorem scratch_dir_left_behind:
  "mkdtemp ''/tmp'' [''abc''] (self_temp_dir example_store) {''/tmp''} =
     Inr (''/tmp/tmpabc'', {''/tmp/tmpabc'', ''/tmp''}) \<and>
   get_local_output_dir_fn example_store ''run42'' ''/tmp'' [''abc''] refused writes_model {''/tmp''} =
     ({''/tmp/tmpabc/model.h5'', ''/tmp/tmpabc'', ''/tmp''}, Inl OSError) \<and>
   ''/tmp/tmpabc'' \<in> fst (get_local_output_dir_fn example_store ''run42'' ''/tmp'' [''abc'']
        refused writes_model {''/tmp''})"
proof -
  have m: "mkdtemp ''/tmp'' [''abc''] (self_temp_dir example_store) {''/tmp''} =
           Inr (''/tmp/tmpabc'', {''/tmp/tmpabc'', ''/tmp''})"
    by (simp add: mkdtemp_def example_store_def os_path_join_def)
  have r: "rmtree refused ''/tmp/tmpabc'' {''/tmp/tmpabc/model.h5'', ''/tmp/tmpabc'', ''/tmp''} =
           (Some OSError, {''/tmp/tmpabc/model.h5'', ''/tmp/tmpabc'', ''/tmp''})"
    by (auto simp: rmtree_def refused_def)
  have g: "get_local_output_dir_fn example_store ''run42'' ''/tmp'' [''abc''] refused writes_model {''/tmp''} =
           ({''/tmp/tmpabc/model.h5'', ''/tmp/tmpabc'', ''/tmp''}, Inl OSError)"
    using m r by (simp add: get_local_output_dir_fn_def local_run_path_def writes_model_def)
  from m g show ?thesis by simp
qed

section \<open>What a call uploads\<close>

text \<open>Two calls one after the other, over the same walk: both run the loop over the same
  pairs, the second from the ledger the first left.\<close>

lemma fn_twice:
  assumes "fn e1 c p = (c1, tr1, err1)" and "err1 \<noteq> Some ConnectError"
    and "fn e2 c1 p = (c2, tr2, err2)" and "os_walk e2 p = os_walk e1 p"
  shows "\<exists>trs1. sync_flat e1 (targets (hdfs_root_path c) (length p + 1) (os_walk e1 p))
                   (uploaded (state c)) = (uploaded (state c1), trs1, err1) \<and>
                uploads tr1 = uploads trs1 \<and> uploads_ok tr1 = uploads_ok trs1 \<and>
                (tr1 = trs1 \<or> (\<exists>ev. tr1 = ev # trs1 \<and> fs (state c) = None)) \<and>
                sync_flat e2 (targets (hdfs_root_path c) (length p + 1) (os_walk e1 p))
                   (uploaded (state c1)) = (uploaded (state c2), tr2, err2)"
proof -
  from fn_sync[OF assms(1,2)] obtain trs1 where
    s1: "sync_flat e1 (targets (hdfs_root_path c) (length p + 1) (os_walk e1 p))
           (uploaded (state c)) = (uploaded (state c1), trs1, err1)"
      "uploads tr1 = uploads trs1" "uploads_ok tr1 = uploads_ok trs1"
      "tr1 = trs1 \<or> (\<exists>ev. tr1 = ev # trs1 \<and> fs (state c) = None)"
      "fs (state c1) \<noteq> None" "hdfs_root_path c1 = hdfs_root_path c" by blast
  from assms(3) have "sync_flat e2 (targets (hdfs_root_path c) (length p + 1) (os_walk e1 p))
                   (uploaded (state c1)) = (uploaded (state c2), tr2, err2)"
  proof (cases rule: fn_cases)
    case unreachable
    with s1(5) show ?thesis by simp
  next
    case (connected h trs)
    with s1(5) show ?thesis by simp
  next
    case (cached h)
    with s1(6) assms(4) show ?thesis by simp
  qed
  with s1 show ?thesis by blast
qed

lemma distinct_singleton: "distinct xs \<Longrightarrow> a \<in> set xs \<Longrightarrow> set xs \<subseteq> {a} \<Longrightarrow> xs = [a]"
proof (cases xs)
  case Nil
  assume "a \<in> set xs"
  with Nil show ?thesis by simp
next
  case (Cons x ys)
  assume d: "distinct xs" and s: "set xs \<subseteq> {a}"
  from Cons s have x: "x = a" by simp
  have "ys = []"
  proof (cases ys)
    case (Cons y zs)
    with \<open>xs = x # ys\<close> s have "y = a" by simp
    with Cons \<open>xs = x # ys\<close> x d show ?thesis by simp
  qed simp
  with Cons x show ?thesis by simp
qed

lemma first_occurrence:
  assumes "(lp, hp) \<in> set vs"
  shows "\<exists>pre hp' post. vs = pre @ (lp, hp') # post \<and> (\<forall>v \<in> set pre. fst v \<noteq> lp)"
proof -
  from assms have "\<exists>v \<in> set vs. fst v = lp" by force
  from split_list_first_prop[OF this] obtain pre v post where
    "vs = pre @ v # post" "fst v = lp" "\<forall>y \<in> set pre. fst y \<noteq> lp" by blast
  then show ?thesis by (intro exI[of _ pre] exI[of _ "snd v"] exI[of _ post]) (cases v, simp)
qed

lemma sync_idempotent:
  assumes "fn e1 c p = (c1, tr1, None)" and "fn e2 c1 p = (c2, tr2, err2)"
    and "os_walk e2 p = os_walk e1 p"
    and "\<forall>lp \<in> set (visited (os_walk e1 p)). modified_ts e2 lp = modified_ts e1 lp"
  shows "tr2 = [] \<and> err2 = None \<and> uploaded (state c2) = uploaded (state c1)"
proof -
  let ?T = "targets (hdfs_root_path c) (length p + 1) (os_walk e1 p)"
  from fn_twice[OF assms(1) _ assms(2,3)] obtain trs1 where
    s1: "sync_flat e1 ?T (uploaded (state c)) = (uploaded (state c1), trs1, None)"
    and s2: "sync_flat e2 ?T (uploaded (state c1)) = (uploaded (state c2), tr2, err2)" by auto
  have "sync_flat e2 ?T (uploaded (state c1)) = (uploaded (state c1), [], None)"
  proof (rule sync_flat_idle)
    fix lp hp assume v: "(lp, hp) \<in> set ?T"
    with assms(4) have eq: "modified_ts e2 lp = modified_ts e1 lp" by (auto dest: targets_visited)
    from sync_flat_complete[OF s1 v] sync_flat_settled[OF s1 v]
    show "modified_ts e2 lp \<noteq> None \<and> \<not> due (uploaded (state c1)) e2 lp"
      by (simp add: eq due_cong[OF eq])
  qed
  with s2 show ?thesis by simp
qed

lemma sync_touched:
  assumes "fn e1 c p = (c1, tr1, None)" and "fn e2 c1 p = (c2, tr2, err2)"
    and "os_walk e2 p = os_walk e1 p" and "F1 \<in> set (visited (os_walk e1 p))"
    and "\<forall>lp \<in> set (visited (os_walk e1 p)). lp \<noteq> F1 \<longrightarrow> modified_ts e2 lp = modified_ts e1 lp"
    and "due (uploaded (state c1)) e2 F1"
  shows "uploads tr2 = [F1]"
proof -
  let ?T = "targets (hdfs_root_path c) (length p + 1) (os_walk e1 p)"
  from fn_twice[OF assms(1) _ assms(2,3)] obtain trs1 where
    s1: "sync_flat e1 ?T (uploaded (state c)) = (uploaded (state c1), trs1, None)"
    and s2: "sync_flat e2 ?T (uploaded (state c1)) = (uploaded (state c2), tr2, err2)" by auto
  have rest: "modified_ts e2 lp \<noteq> None \<and> \<not> due (uploaded (state c1)) e2 lp"
    if v: "(lp, hp) \<in> set ?T" and n: "lp \<noteq> F1" for lp hp
  proof -
    from v n assms(5) have eq: "modified_ts e2 lp = modified_ts e1 lp"
      by (auto dest: targets_visited)
    from sync_flat_complete[OF s1 v] sync_flat_settled[OF s1 v] show ?thesis
      by (simp add: eq due_cong[OF eq])
  qed
  from visited_targets[OF assms(4)] obtain hp where "(F1, hp) \<in> set ?T" by blast
  from first_occurrence[OF this] obtain pre hp' post where
    sp: "?T = pre @ (F1, hp') # post" "\<forall>v \<in> set pre. fst v \<noteq> F1" by blast
  have "\<exists>ok tr'. tr2 = Upload hp' F1 ok # tr'"
  proof (rule sync_flat_first[where pre = pre and post = post and e = e2
                                and L = "uploaded (state c1)" and L' = "uploaded (state c2)" and err = err2])
    fix lp hp assume "(lp, hp) \<in> set pre"
    with sp have "(lp, hp) \<in> set ?T" "lp \<noteq> F1" by auto
    then show "modified_ts e2 lp \<noteq> None \<and> \<not> due (uploaded (state c1)) e2 lp" by (rule rest)
  next
    show "due (uploaded (state c1)) e2 F1" by fact
  next
    from s2 sp(1) show "sync_flat e2 (pre @ (F1, hp') # post) (uploaded (state c1)) =
        (uploaded (state c2), tr2, err2)" by simp
  qed
  then have "F1 \<in> set (uploads tr2)" by auto
  moreover have "set (uploads tr2) \<subseteq> {F1}"
  proof
    fix lp assume "lp \<in> set (uploads tr2)"
    then obtain hp ok where "Upload hp lp ok \<in> set tr2" by (auto simp: uploads_set)
    from sync_flat_sound[OF s2 this] rest show "lp \<in> {F1}" by blast
  qed
  moreover from sync_flat_distinct[OF s2] have "distinct (uploads tr2)" .
  ultimately show ?thesis by (intro distinct_singleton)
qed

text \<open>When the ledger was not ahead of the file, the call that went through has recorded
  the timestamp the file had.\<close>

lemma sync_records_timestamp:
  assumes "fn e1 c p = (c1, tr1, None)" and "F1 \<in> set (visited (os_walk e1 p))"
    and "modified_ts e1 F1 = Some t1" and "\<forall>t. uploaded (state c) F1 = Some t \<longrightarrow> t \<le> t1"
  shows "uploaded (state c1) F1 = Some t1"
proof -
  let ?T = "targets (hdfs_root_path c) (length p + 1) (os_walk e1 p)"
  from fn_sync[OF assms(1)] obtain trs1 where
    s1: "sync_flat e1 ?T (uploaded (state c)) = (uploaded (state c1), trs1, None)" by auto
  from visited_targets[OF assms(2)] obtain hp where v: "(F1, hp) \<in> set ?T" by blast
  from sync_flat_all_ok[OF s1] have ok: "uploads_ok trs1 = uploads trs1" by simp
  show ?thesis
  proof (cases "F1 \<in> set (uploads trs1)")
    case True
    with sync_flat_ledger[OF s1, of F1] ok assms(3) show ?thesis by simp
  next
    case False
    with sync_flat_ledger[OF s1, of F1] ok
    have same: "uploaded (state c1) F1 = uploaded (state c) F1" by simp
    from sync_flat_complete[OF s1 v] False have "\<not> due (uploaded (state c)) e1 F1" by blast
    with assms(3) obtain t where t: "uploaded (state c) F1 = Some t" "t1 \<le> t"
      by (auto simp: due_def split: option.splits)
    with assms(4) have "t = t1" by auto
    with t same show ?thesis by simp
  qed
qed

text \<open>
  Claim C1, as amended.  In every call of a sync function no path is uploaded twice, every
  path uploaded was visited and was due when the call started (not in the ledger, or with
  an integer timestamp strictly greater than the recorded one), and a call that ends
  without an exception has uploaded every visited path that was due.  So a second call,
  after a first that ended without an exception and with the walk and the timestamps
  unchanged, uploads nothing.  And when between two such calls the timestamp of one file
  \<open>F1\<close> alone changes, to a value strictly greater than the one the ledger records for
  \<open>F1\<close>, the second call uploads \<open>F1\<close> once and nothing else; the timestamp is greater
  than the recorded one whenever it has advanced and the ledger was not ahead of the file
  when the first call started.
\<close>

theorem sync_uploads_what_is_due:
  "(fn e c p = (c', tr, err) \<longrightarrow>
      distinct (uploads tr) \<and>
      (\<forall>lp \<in> set (uploads tr). lp \<in> set (visited (os_walk e p)) \<and> due (uploaded (state c)) e lp) \<and>
      (err = None \<longrightarrow>
         (\<forall>lp \<in> set (visited (os_walk e p)). due (uploaded (state c)) e lp \<longrightarrow> lp \<in> set (uploads tr))))
   \<and> (fn e1 c p = (c1, tr1, None) \<and> fn e2 c1 p = (c2, tr2, err2) \<and>
       os_walk e2 p = os_walk e1 p \<and>
       (\<forall>lp \<in> set (visited (os_walk e1 p)). modified_ts e2 lp = modified_ts e1 lp) \<longrightarrow>
       uploads tr2 = [] \<and> err2 = None)
   \<and> (fn e1 c p = (c1, tr1, None) \<and> fn e2 c1 p = (c2, tr2, err2) \<and>
       os_walk e2 p = os_walk e1 p \<and> F1 \<in> set (visited (os_walk e1 p)) \<and>
       (\<forall>lp \<in> set (visited (os_walk e1 p)). lp \<noteq> F1 \<longrightarrow> modified_ts e2 lp = modified_ts e1 lp) \<and>
       due (uploaded (state c1)) e2 F1 \<longrightarrow>
       uploads tr2 = [F1])
   \<and> (fn e1 c p = (c1, tr1, None) \<and> fn e2 c1 p = (c2, tr2, err2) \<and>
       os_walk e2 p = os_walk e1 p \<and> F1 \<in> set (visited (os_walk e1 p)) \<and>
       (\<forall>lp \<in> set (visited (os_walk e1 p)). lp \<noteq> F1 \<longrightarrow> modified_ts e2 lp = modified_ts e1 lp) \<and>
       modified_ts e1 F1 = Some t1 \<and> modified_ts e2 F1 = Some t2 \<and> t1 < t2 \<and>
       (\<forall>t. uploaded (state c) F1 = Some t \<longrightarrow> t \<le> t1) \<longrightarrow>
       uploads tr2 = [F1])"
proof -
  have A: "fn e c p = (c', tr, err) \<longrightarrow>
      distinct (uploads tr) \<and>
      (\<forall>lp \<in> set (uploads tr). lp \<in> set (visited (os_walk e p)) \<and> due (uploaded (state c)) e lp) \<and>
      (err = None \<longrightarrow>
         (\<forall>lp \<in> set (visited (os_walk e p)). due (uploaded (state c)) e lp \<longrightarrow> lp \<in> set (uploads tr)))"
  proof
    assume f: "fn e c p = (c', tr, err)"
    show "distinct (uploads tr) \<and>
      (\<forall>lp \<in> set (uploads tr). lp \<in> set (visited (os_walk e p)) \<and> due (uploaded (state c)) e lp) \<and>
      (err = None \<longrightarrow>
         (\<forall>lp \<in> set (visited (os_walk e p)). due (uploaded (state c)) e lp \<longrightarrow> lp \<in> set (uploads tr)))"
    proof (cases "err = Some ConnectError")
      case True
      with fn_ConnectError f show ?thesis by fastforce
    next
      case False
      let ?T = "targets (hdfs_root_path c) (length p + 1) (os_walk e p)"
      from fn_sync[OF f False] obtain trs where
        s: "sync_flat e ?T (uploaded (state c)) = (uploaded (state c'), trs, err)"
        and u: "uploads tr = uploads trs" by blast
      have 1: "distinct (uploads tr)" using sync_flat_distinct[OF s] u by simp
      have 2: "lp \<in> set (visited (os_walk e p)) \<and> due (uploaded (state c)) e lp"
        if "lp \<in> set (uploads tr)" for lp
      proof -
        from that u obtain hp ok where "Upload hp lp ok \<in> set trs" by (auto simp: uploads_set)
        from sync_flat_sound[OF s this] show ?thesis by (auto dest: targets_visited)
      qed
      have 3: "lp \<in> set (uploads tr)"
        if "err = None" "lp \<in> set (visited (os_walk e p))" "due (uploaded (state c)) e lp" for lp
      proof -
        from visited_targets[OF that(2)] obtain hp where v: "(lp, hp) \<in> set ?T" by blast
        from s that(1) have "sync_flat e ?T (uploaded (state c)) = (uploaded (state c'), trs, None)"
          by simp
        from sync_flat_complete[OF this v] that(3) u show ?thesis by simp
      qed
      from 1 2 3 show ?thesis by blast
    qed
  qed
  have B: "fn e1 c p = (c1, tr1, None) \<and> fn e2 c1 p = (c2, tr2, err2) \<and>
       os_walk e2 p = os_walk e1 p \<and>
       (\<forall>lp \<in> set (visited (os_walk e1 p)). modified_ts e2 lp = modified_ts e1 lp) \<longrightarrow>
       uploads tr2 = [] \<and> err2 = None"
    using sync_idempotent[of e1 c p c1 tr1 e2 c2 tr2 err2] by auto
  have C: "fn e1 c p = (c1, tr1, None) \<and> fn e2 c1 p = (c2, tr2, err2) \<and>
       os_walk e2 p = os_walk e1 p \<and> F1 \<in> set (visited (os_walk e1 p)) \<and>
       (\<forall>lp \<in> set (visited (os_walk e1 p)). lp \<noteq> F1 \<longrightarrow> modified_ts e2 lp = modified_ts e1 lp) \<and>
       due (uploaded (state c1)) e2 F1 \<longrightarrow>
       uploads tr2 = [F1]"
    using sync_touched[of e1 c p c1 tr1 e2 c2 tr2 err2 F1] by blast
  have D: "fn e1 c p = (c1, tr1, None) \<and> fn e2 c1 p = (c2, tr2, err2) \<and>
       os_walk e2 p = os_walk e1 p \<and> F1 \<in> set (visited (os_walk e1 p)) \<and>
       (\<forall>lp \<in> set (visited (os_walk e1 p)). lp \<noteq> F1 \<longrightarrow> modified_ts e2 lp = modified_ts e1 lp) \<and>
       modified_ts e1 F1 = Some t1 \<and> modified_ts e2 F1 = Some t2 \<and> t1 < t2 \<and>
       (\<forall>t. uploaded (state c) F1 = Some t \<longrightarrow> t \<le> t1) \<longrightarrow>
       uploads tr2 = [F1]"
  proof (intro impI, elim conjE)
    assume h: "fn e1 c p = (c1, tr1, None)" "fn e2 c1 p = (c2, tr2, err2)"
       "os_walk e2 p = os_walk e1 p" "F1 \<in> set (visited (os_walk e1 p))"
       "\<forall>lp \<in> set (visited (os_walk e1 p)). lp \<noteq> F1 \<longrightarrow> modified_ts e2 lp = modified_ts e1 lp"
       "modified_ts e1 F1 = Some t1" "modified_ts e2 F1 = Some t2" "t1 < t2"
       "\<forall>t. uploaded (state c) F1 = Some t \<longrightarrow> t \<le> t1"
    from sync_records_timestamp[OF h(1) h(4) h(6) h(9)] h(7,8)
    have "due (uploaded (state c1)) e2 F1" by (simp add: due_def)
    from sync_touched[OF h(1,2,3,4,5) this] show "uploads tr2 = [F1]" .
  qed
  from A B C D show ?thesis by (intro conjI)
qed

theorem sync_uploads_what_is_due_witness:
  "snd (snd (fn (two_files 100 100 []) fresh ''/tmp/x'')) = None \<and>
   uploads (fst (snd (fn (two_files 100 100 []) fresh ''/tmp/x''))) = [''/tmp/x/F1'', ''/tmp/x/F2''] \<and>
   modified_ts (two_files 100 100 []) ''/tmp/x/F1'' = Some 100 \<and>
   modified_ts (two_files 200 100 []) ''/tmp/x/F1'' = Some 200 \<and>
   modified_ts (two_files 200 100 []) ''/tmp/x/F2'' = modified_ts (two_files 100 100 []) ''/tmp/x/F2'' \<and>
   uploads (fst (snd (fn (two_files 100 100 []) (fst (fn (two_files 100 100 []) fresh ''/tmp/x'')) ''/tmp/x''))) = [] \<and>
   uploads (fst (snd (fn (two_files 200 100 []) (fst (fn (two_files 100 100 []) fresh ''/tmp/x'')) ''/tmp/x''))) =
     [''/tmp/x/F1'']"
proof -
  let ?e1 = "two_files 100 100 []" and ?e2 = "two_files 200 100 []"
  let ?r1 = "fn ?e1 fresh ''/tmp/x''"
  let ?r2 = "fn ?e2 (fst ?r1) ''/tmp/x''" and ?r1' = "fn ?e1 (fst ?r1) ''/tmp/x''"
  have n: "snd (snd ?r1) = None" by code_simp
  have u1: "uploads (fst (snd ?r1)) = [''/tmp/x/F1'', ''/tmp/x/F2'']" by code_simp
  have f1: "fn ?e1 fresh ''/tmp/x'' = (fst ?r1, fst (snd ?r1), None)"
    using n by (metis prod.collapse)
  have f2: "fn ?e2 (fst ?r1) ''/tmp/x'' = (fst ?r2, fst (snd ?r2), snd (snd ?r2))" by simp
  have f1': "fn ?e1 (fst ?r1) ''/tmp/x'' = (fst ?r1', fst (snd ?r1'), snd (snd ?r1'))" by simp
  have w: "os_walk ?e2 ''/tmp/x'' = os_walk ?e1 ''/tmp/x''" by (simp add: two_files_def world_def)
  have v: "''/tmp/x/F1'' \<in> set (visited (os_walk ?e1 ''/tmp/x''))" by code_simp
  have same: "\<forall>lp \<in> set (visited (os_walk ?e1 ''/tmp/x'')). modified_ts ?e1 lp = modified_ts ?e1 lp"
    by simp
  have others: "\<forall>lp \<in> set (visited (os_walk ?e1 ''/tmp/x'')).
                  lp \<noteq> ''/tmp/x/F1'' \<longrightarrow> modified_ts ?e2 lp = modified_ts ?e1 lp"
    by code_simp
  have m1: "modified_ts ?e1 ''/tmp/x/F1'' = Some 100" by code_simp
  have m2: "modified_ts ?e2 ''/tmp/x/F1'' = Some 200" by code_simp
  have m3: "modified_ts ?e2 ''/tmp/x/F2'' = modified_ts ?e1 ''/tmp/x/F2''" by code_simp
  have lt: "(100::int) < 200" by simp
  have led: "\<forall>t. uploaded (state fresh) ''/tmp/x/F1'' = Some t \<longrightarrow> t \<le> 100"
    by (simp add: fresh_def sync_fn_def)
  note t = sync_uploads_what_is_due[where ?e1.0 = ?e1 and c = fresh and p = "''/tmp/x''"
      and ?c1.0 = "fst ?r1" and ?tr1.0 = "fst (snd ?r1)"]
  from t[where ?e2.0 = ?e1 and ?c2.0 = "fst ?r1'" and ?tr2.0 = "fst (snd ?r1')"
           and ?err2.0 = "snd (snd ?r1')"] f1 f1' same
  have idem: "uploads (fst (snd ?r1')) = []" by blast
  from t[where ?e2.0 = ?e2 and ?c2.0 = "fst ?r2" and ?tr2.0 = "fst (snd ?r2)"
           and ?err2.0 = "snd (snd ?r2)" and ?F1.0 = "''/tmp/x/F1''" and ?t1.0 = 100 and ?t2.0 = 200]
       f1 f2 w v others m1 m2 lt led
  have touched: "uploads (fst (snd ?r2)) = [''/tmp/x/F1'']" by blast
  from n u1 m1 m2 m3 idem touched show ?thesis by (intro conjI)
qed

text \<open>
  Claim C1 as stated fails when the ledger is ahead of the file.  The file is uploaded
  with timestamp 500; it is then put back to 100, and a call that goes through skips it;
  between that call and the next its modification time advances to 200, and the next
  call uploads nothing, since 200 is not greater than the 500 recorded.
\<close>

theorem earlier_timestamp_blocks_reupload:
  "uploads (fst (snd (fn (one_file 500) fresh ''/tmp/x''))) = [''/tmp/x/F1''] \<and>
   snd (snd (fn (one_file 100) (fst (fn (one_file 500) fresh ''/tmp/x'')) ''/tmp/x'')) = None \<and>
   modified_ts (one_file 100) ''/tmp/x/F1'' = Some 100 \<and>
   modified_ts (one_file 200) ''/tmp/x/F1'' = Some 200 \<and>
   uploads (fst (snd (fn (one_file 200)
       (fst (fn (one_file 100) (fst (fn (one_file 500) fresh ''/tmp/x'')) ''/tmp/x''))
       ''/tmp/x''))) = []"
  by code_simp

section \<open>A failed upload and the retry\<close>





section \<open>Where a file is uploaded to\<close>

lemma join_name:
  "d \<noteq> [] \<Longrightarrow> last d \<noteq> CHR ''/'' \<Longrightarrow> valid_name n \<Longrightarrow> os_path_join d n = d @ CHR ''/'' # n"
  by (cases n) (auto simp: os_path_join_def valid_name_def)

lemma rel_path_Cons: "rel_path (n # ns) = CHR ''/'' # n @ rel_path ns"
  by (simp add: rel_path_def)

lemma rel_path_append: "rel_path (xs @ ys) = rel_path xs @ rel_path ys"
  by (simp add: rel_path_def)

lemma rel_path_Nil: "rel_path [] = []"
  by (simp add: rel_path_def)

lemma rel_path_last:
  "list_all valid_name ns \<Longrightarrow> d \<noteq> [] \<Longrightarrow> last d \<noteq> CHR ''/'' \<Longrightarrow>
   d @ rel_path ns \<noteq> [] \<and> last (d @ rel_path ns) \<noteq> CHR ''/''"
proof (induction ns arbitrary: d)
  case Nil
  then show ?case by (simp add: rel_path_Nil)
next
  case (Cons n ns)
  from Cons.prems have n: "n \<noteq> []" "CHR ''/'' \<notin> set n" by (simp_all add: valid_name_def)
  then have "last n \<noteq> CHR ''/''" using last_in_set by metis
  with n have "d @ CHR ''/'' # n \<noteq> [] \<and> last (d @ CHR ''/'' # n) \<noteq> CHR ''/''" by simp
  with Cons.IH[of "d @ CHR ''/'' # n"] Cons.prems(1) show ?case
    by (simp add: rel_path_Cons)
qed

lemma file_names_valid: "list_all valid_node es \<Longrightarrow> list_all valid_name (file_names es)"
  by (induction es rule: file_names.induct) auto

text \<open>Every directory \<open>os.walk\<close> yields is the top followed by the names of the
  directories down to it, and the files it lists there have valid names.\<close>

lemma walk_yields:
  "(ld, ds, fls) \<in> set (walk top_dir es) \<Longrightarrow> list_all valid_node es \<Longrightarrow>
   top_dir \<noteq> [] \<Longrightarrow> last top_dir \<noteq> CHR ''/'' \<Longrightarrow>
   \<exists>names. list_all valid_name names \<and> ld = top_dir @ rel_path names \<and> list_all valid_name fls"
proof (induction top_dir es arbitrary: ld ds fls rule: walk.induct)
  case (1 top_dir es)
  from "1.prems"(1) consider (here) "(ld, ds, fls) = (top_dir, dir_names es, file_names es)"
    | (below) n sub where "Dir n sub \<in> set es" "(ld, ds, fls) \<in> set (walk (os_path_join top_dir n) sub)"
    by (subst (asm) walk.simps) (auto split: node.splits)
  then show ?case
  proof cases
    case here
    with file_names_valid[OF "1.prems"(2)] show ?thesis
      by (intro exI[of _ "[]"]) (simp add: rel_path_Nil)
  next
    case (below n sub)
    from below(1) "1.prems"(2) have v: "valid_name n" "list_all valid_node sub"
      by (auto simp: list_all_iff)
    from join_name[OF "1.prems"(3,4) v(1)] have j: "os_path_join top_dir n = top_dir @ CHR ''/'' # n" .
    from rel_path_last[of "[n]" top_dir] v(1) "1.prems"(3,4)
    have ok: "os_path_join top_dir n \<noteq> []" "last (os_path_join top_dir n) \<noteq> CHR ''/''"
      by (simp_all add: j rel_path_Cons rel_path_Nil)
    from "1.IH"[OF below(1) refl below(2) v(2) ok] obtain names where
      "list_all valid_name names" "ld = os_path_join top_dir n @ rel_path names"
      "list_all valid_name fls" by blast
    with v(1) j show ?thesis
      by (intro exI[of _ "n # names"]) (simp add: rel_path_Cons)
  qed
qed

lemma walk_has_file:
  "has_file es ds f \<Longrightarrow> list_all valid_node es \<Longrightarrow> top_dir \<noteq> [] \<Longrightarrow> last top_dir \<noteq> CHR ''/'' \<Longrightarrow>
   \<exists>dirs files. (top_dir @ rel_path ds, dirs, files) \<in> set (walk top_dir es) \<and> f \<in> set files \<and>
                 list_all valid_name ds \<and> valid_name f"
proof (induction ds arbitrary: es top_dir)
  case Nil
  from file_names_valid[OF Nil.prems(2)] Nil.prems(1) have "valid_name f"
    by (auto simp: list_all_iff)
  moreover have "(top_dir, dir_names es, file_names es) \<in> set (walk top_dir es)"
    by (subst walk.simps) simp
  ultimately show ?case using Nil.prems(1)
    by (intro exI[of _ "dir_names es"] exI[of _ "file_names es"]) (simp add: rel_path_Nil)
next
  case (Cons d ds)
  from Cons.prems(1) obtain x where x: "x \<in> set es"
    "case x of File n \<Rightarrow> False | Dir n sub \<Rightarrow> n = d \<and> has_file sub ds f"
    by (auto simp: list_ex_iff)
  have "\<exists>sub. Dir d sub \<in> set es \<and> has_file sub ds f"
  proof (cases x)
    case (File n)
    with x(2) show ?thesis by simp
  next
    case (Dir n sub)
    with x show ?thesis by auto
  qed
  then obtain sub where sub: "Dir d sub \<in> set es" "has_file sub ds f" by blast
  from sub(1) Cons.prems(2) have v: "valid_name d" "list_all valid_node sub"
    by (auto simp: list_all_iff)
  from join_name[OF Cons.prems(3,4) v(1)] have j: "os_path_join top_dir d = top_dir @ CHR ''/'' # d" .
  from rel_path_last[of "[d]" top_dir] v(1) Cons.prems(3,4)
  have ok: "os_path_join top_dir d \<noteq> []" "last (os_path_join top_dir d) \<noteq> CHR ''/''"
    by (simp_all add: j rel_path_Cons rel_path_Nil)
  from Cons.IH[OF sub(2) v(2) ok] obtain dirs files where
    w: "(os_path_join top_dir d @ rel_path ds, dirs, files) \<in> set (walk (os_path_join top_dir d) sub)"
       "f \<in> set files" "list_all valid_name ds" "valid_name f" by blast
  from w(1) sub(1) have "(top_dir @ rel_path (d # ds), dirs, files) \<in> set (walk top_dir es)"
    by (subst walk.simps) (auto simp: j rel_path_Cons intro!: bexI[of _ "Dir d sub"])
  with w v(1) show ?case by (intro exI[of _ dirs] exI[of _ files]) simp
qed

text \<open>Re-rooting: both paths of a fname end in the same relative path.\<close>

lemma reroot:
  assumes "list_all valid_name names" and "valid_name fname"
    and "top_dir \<noteq> []" "last top_dir \<noteq> CHR ''/''"
    and "hdfs_root \<noteq> []" "last hdfs_root \<noteq> CHR ''/''"
  shows "os_path_join (top_dir @ rel_path names) fname = top_dir @ rel_path (names @ [fname])"
    and "os_path_join (os_path_join hdfs_root (drop (length top_dir + 1) (top_dir @ rel_path names))) fname
         = hdfs_root @ rel_path (names @ [fname])"
proof -
  from rel_path_last[OF assms(1,3,4)] join_name[OF _ _ assms(2)]
  show "os_path_join (top_dir @ rel_path names) fname = top_dir @ rel_path (names @ [fname])"
    by (simp add: rel_path_append rel_path_Cons rel_path_Nil)
  show "os_path_join (os_path_join hdfs_root (drop (length top_dir + 1) (top_dir @ rel_path names))) fname
         = hdfs_root @ rel_path (names @ [fname])"
  proof (cases names)
    case Nil
    from assms(5,6) have "os_path_join hdfs_root [] = hdfs_root @ ''/''"
      by (simp add: os_path_join_def)
    moreover from assms(2,5) have "os_path_join (hdfs_root @ ''/'') fname = hdfs_root @ ''/'' @ fname"
      by (cases fname) (auto simp: os_path_join_def valid_name_def)
    ultimately show ?thesis using Nil by (simp add: rel_path_Cons rel_path_Nil)
  next
    case (Cons n ns)
    let ?Q = "n @ rel_path ns"
    from Cons assms(1) have n: "valid_name n" "list_all valid_name ns" by simp_all
    then have q: "?Q \<noteq> []" "hd ?Q \<noteq> CHR ''/''"
      by (cases n; auto simp: valid_name_def)+
    have d: "drop (length top_dir + 1) (top_dir @ rel_path names) = ?Q"
      by (simp add: Cons rel_path_Cons)
    from q assms(5,6) have j: "os_path_join hdfs_root ?Q = hdfs_root @ CHR ''/'' # ?Q"
      by (simp add: os_path_join_def)
    have e: "hdfs_root @ CHR ''/'' # ?Q = hdfs_root @ rel_path names"
      by (simp add: Cons rel_path_Cons)
    from rel_path_last[OF assms(1,5,6)] join_name[OF _ _ assms(2)]
    have "os_path_join (hdfs_root @ rel_path names) fname = hdfs_root @ rel_path names @ CHR ''/'' # fname"
      by simp
    moreover have "os_path_join (os_path_join hdfs_root (drop (length top_dir + 1) (top_dir @ rel_path names))) fname
          = os_path_join (hdfs_root @ rel_path names) fname"
      by (simp only: d j e)
    ultimately show ?thesis by (simp add: rel_path_append rel_path_Cons rel_path_Nil)
  qed
qed

text \<open>Every pair the loops go through mirrors one relative path.\<close>

lemma targets_mirror:
  assumes "(lp, hp) \<in> set (targets hdfs_root (length top_dir + 1) (walk top_dir es))"
    and "list_all valid_node es" and "top_dir \<noteq> []" "last top_dir \<noteq> CHR ''/''"
    and "hdfs_root \<noteq> []" "last hdfs_root \<noteq> CHR ''/''"
  shows "\<exists>names. lp = top_dir @ rel_path names \<and> hp = hdfs_root @ rel_path names"
proof -
  from assms(1) obtain ld ds fls fname where
    t: "(ld, ds, fls) \<in> set (walk top_dir es)" "fname \<in> set fls"
       "lp = os_path_join ld fname"
       "hp = os_path_join (os_path_join hdfs_root (drop (length top_dir + 1) ld)) fname"
    by (auto simp: targets_def)
  from walk_yields[OF t(1) assms(2,3,4)] obtain names where
    n: "list_all valid_name names" "ld = top_dir @ rel_path names" "list_all valid_name fls" by blast
  from n(3) t(2) have f: "valid_name fname" by (auto simp: list_all_iff)
  from reroot[OF n(1) f assms(3,4,5,6)] t(3,4) n(2) show ?thesis
    by (intro exI[of _ "names @ [fname]"]) simp
qed

lemma targets_has_file:
  assumes "has_file es ds f" and "list_all valid_node es"
    and "top_dir \<noteq> []" "last top_dir \<noteq> CHR ''/''"
    and "hdfs_root \<noteq> []" "last hdfs_root \<noteq> CHR ''/''"
  shows "(top_dir @ rel_path (ds @ [f]), hdfs_root @ rel_path (ds @ [f]))
           \<in> set (targets hdfs_root (length top_dir + 1) (walk top_dir es))"
proof -
  from walk_has_file[OF assms(1,2,3,4)] obtain dirs files where
    w: "(top_dir @ rel_path ds, dirs, files) \<in> set (walk top_dir es)" "f \<in> set files"
       "list_all valid_name ds" "valid_name f" by blast
  from reroot[OF w(3,4) assms(3,4,5,6)]
  have "(top_dir @ rel_path (ds @ [f]), hdfs_root @ rel_path (ds @ [f])) =
        (os_path_join (top_dir @ rel_path ds) f,
         os_path_join (os_path_join hdfs_root (drop (length top_dir + 1) (top_dir @ rel_path ds))) f)"
    by simp
  with w(1,2) show ?thesis unfolding targets_def by force
qed

lemma get_run_path_plain:
  assumes "store_prefix \<noteq> []" "last store_prefix \<noteq> CHR ''/''"
    and "run_id \<noteq> []" "hd run_id \<noteq> CHR ''/''" "last run_id \<noteq> CHR ''/''"
  shows "get_run_path store_prefix run_id = store_prefix @ ''/'' @ run_id"
    and "get_run_path store_prefix run_id \<noteq> []"
    and "last (get_run_path store_prefix run_id) \<noteq> CHR ''/''"
  using assms by (simp_all add: get_run_path_def os_path_join_def)

lemma sync_flat_ok_events:
  "sync_flat e vs L = (L', tr, None) \<Longrightarrow> Upload hp lp ok \<in> set tr \<Longrightarrow> ok"
proof (induction vs arbitrary: L L' tr)
  case Nil
  then show ?case by simp
next
  case (Cons v vs)
  obtain lp0 hp0 where v: "v = (lp0, hp0)" by (cases v)
  from Cons.prems(1)[unfolded v] show ?case
  proof (cases rule: sync_flat_ConsE)
    case nomtime
    then show ?thesis by simp
  next
    case (skip ts)
    from Cons.IH[OF skip(3) Cons.prems(2)] show ?thesis .
  next
    case (failed ts)
    then show ?thesis by simp
  next
    case (uploaded ts tr')
    show ?thesis
    proof (cases "Upload hp lp ok \<in> set tr'")
      case True
      from Cons.IH[OF uploaded(4) True] show ?thesis .
    next
      case False
      with uploaded(5) Cons.prems(2) show ?thesis by simp
    qed
  qed
qed

text \<open>Under a store prefix without a trailing separator and a run id that is not empty and
  neither starts nor ends with one, the remote root is \<open>store_prefix/run_id\<close> and every
  upload keeps its relative path.\<close>

lemma mirrors_plain:
  "scratch_root \<noteq> [] \<and> last scratch_root \<noteq> CHR ''/'' \<and>
   list_all valid_node es \<and> os_walk e scratch_root = walk scratch_root es \<and>
   store_prefix \<noteq> [] \<and> last store_prefix \<noteq> CHR ''/'' \<and>
   run_id \<noteq> [] \<and> hd run_id \<noteq> CHR ''/'' \<and> last run_id \<noteq> CHR ''/'' \<and>
   hdfs_root_path c = hdfs_root_path (sync_fn store_prefix self run_id) \<and>
   fn e c scratch_root = (c', tr, err) \<longrightarrow>
   hdfs_root_path c = store_prefix @ ''/'' @ run_id \<and>
   (\<forall>hp lp ok. Upload hp lp ok \<in> set tr \<longrightarrow>
      (\<exists>names. lp = scratch_root @ rel_path names \<and>
               hp = store_prefix @ ''/'' @ run_id @ rel_path names)) \<and>
   (has_file es ds f \<longrightarrow>
      (\<forall>hp ok. Upload hp (scratch_root @ rel_path (ds @ [f])) ok \<in> set tr \<longrightarrow>
         hp = store_prefix @ ''/'' @ run_id @ rel_path (ds @ [f])) \<and>
      (err = None \<and> due (uploaded (state c)) e (scratch_root @ rel_path (ds @ [f])) \<longrightarrow>
         Upload (store_prefix @ ''/'' @ run_id @ rel_path (ds @ [f]))
                (scratch_root @ rel_path (ds @ [f])) True \<in> set tr))"
proof (intro impI, elim conjE)
  assume top: "scratch_root \<noteq> []" "last scratch_root \<noteq> CHR ''/''"
    and es: "list_all valid_node es" and w: "os_walk e scratch_root = walk scratch_root es"
    and sp: "store_prefix \<noteq> []" "last store_prefix \<noteq> CHR ''/''"
    and rid: "run_id \<noteq> []" "hd run_id \<noteq> CHR ''/''" "last run_id \<noteq> CHR ''/''"
    and c: "hdfs_root_path c = hdfs_root_path (sync_fn store_prefix self run_id)"
    and f: "fn e c scratch_root = (c', tr, err)"
  let ?root = "store_prefix @ ''/'' @ run_id"
  let ?T = "targets (hdfs_root_path c) (length scratch_root + 1) (os_walk e scratch_root)"
  from get_run_path_plain[OF sp rid] c
  have root: "hdfs_root_path c = ?root" "?root \<noteq> []" "last ?root \<noteq> CHR ''/''"
    by (simp_all add: sync_fn_def)
  have T: "?T = targets ?root (length scratch_root + 1) (walk scratch_root es)"
    by (simp only: root(1) w)
  have in_T: "(lp, hp) \<in> set ?T" if "Upload hp lp ok \<in> set tr" for hp lp ok
  proof (cases "err = Some ConnectError")
    case True
    with fn_ConnectError f that show ?thesis by fastforce
  next
    case False
    from fn_sync[OF f False] obtain trs where
      "sync_flat e ?T (uploaded (state c)) = (uploaded (state c'), trs, err)"
      "\<forall>hp lp ok. Upload hp lp ok \<in> set tr \<longleftrightarrow> Upload hp lp ok \<in> set trs" by blast
    with that sync_flat_sound show ?thesis by blast
  qed
  have mirror: "\<exists>names. lp = scratch_root @ rel_path names \<and> hp = ?root @ rel_path names"
    if "Upload hp lp ok \<in> set tr" for hp lp ok
    using targets_mirror[OF in_T[OF that, unfolded T] es top root(2,3)] .
  have one: "hp = ?root @ rel_path (ds @ [f])"
    if "Upload hp (scratch_root @ rel_path (ds @ [f])) ok \<in> set tr" for hp ok
    using mirror[OF that] by auto
  have up: "Upload (?root @ rel_path (ds @ [f])) (scratch_root @ rel_path (ds @ [f])) True \<in> set tr"
    if h: "has_file es ds f" and n: "err = None"
      and d: "due (uploaded (state c)) e (scratch_root @ rel_path (ds @ [f]))"
  proof -
    let ?lp = "scratch_root @ rel_path (ds @ [f])"
    from n have "err \<noteq> Some ConnectError" by simp
    from fn_sync[OF f this] n obtain trs where
      s: "sync_flat e ?T (uploaded (state c)) = (uploaded (state c'), trs, None)"
      and ev: "\<forall>hp lp ok. Upload hp lp ok \<in> set tr \<longleftrightarrow> Upload hp lp ok \<in> set trs" by blast
    from targets_has_file[OF h es top root(2,3)] T
    have "(?lp, ?root @ rel_path (ds @ [f])) \<in> set ?T" by simp
    from sync_flat_complete[OF s this] d have "?lp \<in> set (uploads trs)" by blast
    then obtain hp ok where e1: "Upload hp ?lp ok \<in> set trs" by (auto simp: uploads_set)
    from sync_flat_ok_events[OF s e1] have ok by simp
    moreover from e1 ev have e2: "Upload hp ?lp ok \<in> set tr" by blast
    moreover from one[OF e2] have "hp = ?root @ rel_path (ds @ [f])" .
    ultimately show ?thesis by simp
  qed
  from root(1) mirror one up
  show "hdfs_root_path c = store_prefix @ ''/'' @ run_id \<and>
   (\<forall>hp lp ok. Upload hp lp ok \<in> set tr \<longrightarrow>
      (\<exists>names. lp = scratch_root @ rel_path names \<and>
               hp = store_prefix @ ''/'' @ run_id @ rel_path names)) \<and>
   (has_file es ds f \<longrightarrow>
      (\<forall>hp ok. Upload hp (scratch_root @ rel_path (ds @ [f])) ok \<in> set tr \<longrightarrow>
         hp = store_prefix @ ''/'' @ run_id @ rel_path (ds @ [f])) \<and>
      (err = None \<and> due (uploaded (state c)) e (scratch_root @ rel_path (ds @ [f])) \<longrightarrow>
         Upload (store_prefix @ ''/'' @ run_id @ rel_path (ds @ [f]))
                (scratch_root @ rel_path (ds @ [f])) True \<in> set tr))"
    by (simp only: append_assoc) blast
qed

lemma uploads_rerooted:
  assumes f: "fn e c scratch_root = (c', tr, err)" and u: "Upload hp lp ok \<in> set tr"
  shows "\<exists>local_dir dirs files fname.
           (local_dir, dirs, files) \<in> set (os_walk e scratch_root) \<and> fname \<in> set files \<and>
           lp = os_path_join local_dir fname \<and>
           hp = os_path_join (os_path_join (hdfs_root_path c) (drop (length scratch_root + 1) local_dir))
                  fname"
proof -
  let ?T = "targets (hdfs_root_path c) (length scratch_root + 1) (os_walk e scratch_root)"
  have "(lp, hp) \<in> set ?T"
  proof (cases "err = Some ConnectError")
    case True
    with fn_ConnectError f u show ?thesis by fastforce
  next
    case False
    from fn_sync[OF f False] obtain trs where
      "sync_flat e ?T (uploaded (state c)) = (uploaded (state c'), trs, err)"
      "\<forall>hp lp ok. Upload hp lp ok \<in> set tr \<longleftrightarrow> Upload hp lp ok \<in> set trs" by blast
    with u sync_flat_sound show ?thesis by blast
  qed
  then show ?thesis by (auto simp: targets_def)
qed

text \<open>
  Claim C3, as amended.  For every run id, the remote root of the sync function is the
  store prefix joined with the run id, and every upload of a call is of a file that
  \<open>os.walk\<close> lists in a directory \<open>local_dir\<close>, to the path that joins the file name onto
  the join of the remote root and \<open>local_dir\<close> without the scratch root and one more
  character.  When moreover the scratch root has no trailing separator and holds the
  entries \<open>es\<close> that \<open>os.walk\<close> goes through, the store prefix is not empty and has no
  trailing separator, and the run id is not empty and neither starts nor ends with a
  separator, the remote root is \<open>store_prefix/run_id\<close>, each upload is of a local path
  \<open>scratch_root/names\<close> to the remote path \<open>store_prefix/run_id/names\<close>, with the same
  relative path, a file \<open>f\<close> below the directories \<open>ds\<close> is uploaded nowhere but to
  \<open>store_prefix/run_id/ds/f\<close>, and a call that ends without an exception has uploaded
  it there when it was due.
\<close>

theorem sync_mirrors_scratch_dir:
  "hdfs_root_path c = hdfs_root_path (sync_fn store_prefix self run_id) \<and>
   fn e c scratch_root = (c', tr, err) \<longrightarrow>
   hdfs_root_path c = get_run_path store_prefix run_id \<and>
   (\<forall>hp lp ok. Upload hp lp ok \<in> set tr \<longrightarrow>
      (\<exists>local_dir dirs files fname.
         (local_dir, dirs, files) \<in> set (os_walk e scratch_root) \<and> fname \<in> set files \<and>
         lp = os_path_join local_dir fname \<and>
         hp = os_path_join (os_path_join (get_run_path store_prefix run_id)
                                         (drop (length scratch_root + 1) local_dir)) fname)) \<and>
   (scratch_root \<noteq> [] \<and> last scratch_root \<noteq> CHR ''/'' \<and>
    list_all valid_node es \<and> os_walk e scratch_root = walk scratch_root es \<and>
    store_prefix \<noteq> [] \<and> last store_prefix \<noteq> CHR ''/'' \<and>
    run_id \<noteq> [] \<and> hd run_id \<noteq> CHR ''/'' \<and> last run_id \<noteq> CHR ''/'' \<longrightarrow>
    get_run_path store_prefix run_id = store_prefix @ ''/'' @ run_id \<and>
    (\<forall>hp lp ok. Upload hp lp ok \<in> set tr \<longrightarrow>
       (\<exists>names. lp = scratch_root @ rel_path names \<and>
                hp = store_prefix @ ''/'' @ run_id @ rel_path names)) \<and>
    (has_file es ds f \<longrightarrow>
       (\<forall>hp ok. Upload hp (scratch_root @ rel_path (ds @ [f])) ok \<in> set tr \<longrightarrow>
          hp = store_prefix @ ''/'' @ run_id @ rel_path (ds @ [f])) \<and>
       (err = None \<and> due (uploaded (state c)) e (scratch_root @ rel_path (ds @ [f])) \<longrightarrow>
          Upload (store_prefix @ ''/'' @ run_id @ rel_path (ds @ [f]))
                 (scratch_root @ rel_path (ds @ [f])) True \<in> set tr)))"
proof (intro impI, elim conjE)
  assume c: "hdfs_root_path c = hdfs_root_path (sync_fn store_prefix self run_id)"
    and f: "fn e c scratch_root = (c', tr, err)"
  from c have root: "hdfs_root_path c = get_run_path store_prefix run_id"
    by (simp add: sync_fn_def)
  have A: "\<forall>hp lp ok. Upload hp lp ok \<in> set tr \<longrightarrow>
      (\<exists>local_dir dirs files fname.
         (local_dir, dirs, files) \<in> set (os_walk e scratch_root) \<and> fname \<in> set files \<and>
         lp = os_path_join local_dir fname \<and>
         hp = os_path_join (os_path_join (get_run_path store_prefix run_id)
                                         (drop (length scratch_root + 1) local_dir)) fname)"
    using uploads_rerooted[OF f] by (simp only: root) blast
  have B: "scratch_root \<noteq> [] \<and> last scratch_root \<noteq> CHR ''/'' \<and>
    list_all valid_node es \<and> os_walk e scratch_root = walk scratch_root es \<and>
    store_prefix \<noteq> [] \<and> last store_prefix \<noteq> CHR ''/'' \<and>
    run_id \<noteq> [] \<and> hd run_id \<noteq> CHR ''/'' \<and> last run_id \<noteq> CHR ''/'' \<longrightarrow>
    get_run_path store_prefix run_id = store_prefix @ ''/'' @ run_id \<and>
    (\<forall>hp lp ok. Upload hp lp ok \<in> set tr \<longrightarrow>
       (\<exists>names. lp = scratch_root @ rel_path names \<and>
                hp = store_prefix @ ''/'' @ run_id @ rel_path names)) \<and>
    (has_file es ds f \<longrightarrow>
       (\<forall>hp ok. Upload hp (scratch_root @ rel_path (ds @ [f])) ok \<in> set tr \<longrightarrow>
          hp = store_prefix @ ''/'' @ run_id @ rel_path (ds @ [f])) \<and>
       (err = None \<and> due (uploaded (state c)) e (scratch_root @ rel_path (ds @ [f])) \<longrightarrow>
          Upload (store_prefix @ ''/'' @ run_id @ rel_path (ds @ [f]))
                 (scratch_root @ rel_path (ds @ [f])) True \<in> set tr))"
  proof (intro impI)
    assume h: "scratch_root \<noteq> [] \<and> last scratch_root \<noteq> CHR ''/'' \<and>
    list_all valid_node es \<and> os_walk e scratch_root = walk scratch_root es \<and>
    store_prefix \<noteq> [] \<and> last store_prefix \<noteq> CHR ''/'' \<and>
    run_id \<noteq> [] \<and> hd run_id \<noteq> CHR ''/'' \<and> last run_id \<noteq> CHR ''/''"
    have "scratch_root \<noteq> [] \<and> last scratch_root \<noteq> CHR ''/'' \<and>
    list_all valid_node es \<and> os_walk e scratch_root = walk scratch_root es \<and>
    store_prefix \<noteq> [] \<and> last store_prefix \<noteq> CHR ''/'' \<and>
    run_id \<noteq> [] \<and> hd run_id \<noteq> CHR ''/'' \<and> last run_id \<noteq> CHR ''/'' \<and>
      hdfs_root_path c = hdfs_root_path (sync_fn store_prefix self run_id) \<and>
      fn e c scratch_root = (c', tr, err)"
      using h c f by simp
    note M = mirrors_plain[of scratch_root es e store_prefix run_id c self c' tr err ds f,
                           rule_format, OF this]
    from conjunct1[OF M] root
    have g: "get_run_path store_prefix run_id = store_prefix @ ''/'' @ run_id" by simp
    from g conjunct2[OF M]
    show "get_run_path store_prefix run_id = store_prefix @ ''/'' @ run_id \<and>
    (\<forall>hp lp ok. Upload hp lp ok \<in> set tr \<longrightarrow>
       (\<exists>names. lp = scratch_root @ rel_path names \<and>
                hp = store_prefix @ ''/'' @ run_id @ rel_path names)) \<and>
    (has_file es ds f \<longrightarrow>
       (\<forall>hp ok. Upload hp (scratch_root @ rel_path (ds @ [f])) ok \<in> set tr \<longrightarrow>
          hp = store_prefix @ ''/'' @ run_id @ rel_path (ds @ [f])) \<and>
       (err = None \<and> due (uploaded (state c)) e (scratch_root @ rel_path (ds @ [f])) \<longrightarrow>
          Upload (store_prefix @ ''/'' @ run_id @ rel_path (ds @ [f]))
                 (scratch_root @ rel_path (ds @ [f])) True \<in> set tr))"
      by (rule conjI)
  qed
  from root A B show "hdfs_root_path c = get_run_path store_prefix run_id \<and>
   (\<forall>hp lp ok. Upload hp lp ok \<in> set tr \<longrightarrow>
      (\<exists>local_dir dirs files fname.
         (local_dir, dirs, files) \<in> set (os_walk e scratch_root) \<and> fname \<in> set files \<and>
         lp = os_path_join local_dir fname \<and>
         hp = os_path_join (os_path_join (get_run_path store_prefix run_id)
                                         (drop (length scratch_root + 1) local_dir)) fname)) \<and>
   (scratch_root \<noteq> [] \<and> last scratch_root \<noteq> CHR ''/'' \<and>
    list_all valid_node es \<and> os_walk e scratch_root = walk scratch_root es \<and>
    store_prefix \<noteq> [] \<and> last store_prefix \<noteq> CHR ''/'' \<and>
    run_id \<noteq> [] \<and> hd run_id \<noteq> CHR ''/'' \<and> last run_id \<noteq> CHR ''/'' \<longrightarrow>
    get_run_path store_prefix run_id = store_prefix @ ''/'' @ run_id \<and>
    (\<forall>hp lp ok. Upload hp lp ok \<in> set tr \<longrightarrow>
       (\<exists>names. lp = scratch_root @ rel_path names \<and>
                hp = store_prefix @ ''/'' @ run_id @ rel_path names)) \<and>
    (has_file es ds f \<longrightarrow>
       (\<forall>hp ok. Upload hp (scratch_root @ rel_path (ds @ [f])) ok \<in> set tr \<longrightarrow>
          hp = store_prefix @ ''/'' @ run_id @ rel_path (ds @ [f])) \<and>
       (err = None \<and> due (uploaded (state c)) e (scratch_root @ rel_path (ds @ [f])) \<longrightarrow>
          Upload (store_prefix @ ''/'' @ run_id @ rel_path (ds @ [f]))
                 (scratch_root @ rel_path (ds @ [f])) True \<in> set tr)))"
    by (intro conjI)
qed

theorem sync_mirrors_scratch_dir_witness:
  "has_file [File ''a'', Dir ''sub'' [Dir ''dir'' [File ''file.txt'']]] [''sub'', ''dir''] ''file.txt'' \<and>
   snd (snd (fn (world True [File ''a'', Dir ''sub'' [Dir ''dir'' [File ''file.txt'']]]
                    [(''/tmp/x/a'', 100), (''/tmp/x/sub/dir/file.txt'', 100)] [])
                (sync_fn ''hdfs://nn:8020/user/test'' example_store ''run42'') ''/tmp/x'')) = None \<and>
   Upload ''hdfs://nn:8020/user/test/run42/sub/dir/file.txt'' ''/tmp/x/sub/dir/file.txt'' True
     \<in> set (fst (snd (fn (world True [File ''a'', Dir ''sub'' [Dir ''dir'' [File ''file.txt'']]]
                             [(''/tmp/x/a'', 100), (''/tmp/x/sub/dir/file.txt'', 100)] [])
                         (sync_fn ''hdfs://nn:8020/user/test'' example_store ''run42'') ''/tmp/x'')))"
proof -
  let ?es = "[File ''a'', Dir ''sub'' [Dir ''dir'' [File ''file.txt'']]]"
  let ?e = "world True ?es [(''/tmp/x/a'', 100), (''/tmp/x/sub/dir/file.txt'', 100)] []"
  let ?c = "sync_fn ''hdfs://nn:8020/user/test'' example_store ''run42''"
  let ?r = "fn ?e ?c ''/tmp/x''"
  have h: "has_file ?es [''sub'', ''dir''] ''file.txt''" by code_simp
  have n: "snd (snd ?r) = None" by code_simp
  have f: "fn ?e ?c ''/tmp/x'' = (fst ?r, fst (snd ?r), None)" using n by (metis prod.collapse)
  have v: "list_all valid_node ?es" by code_simp
  have w: "os_walk ?e ''/tmp/x'' = walk ''/tmp/x'' ?es" by (simp add: world_def)
  have d: "due (uploaded (state ?c)) ?e (''/tmp/x'' @ rel_path ([''sub'', ''dir''] @ [''file.txt'']))"
    by code_simp
  have p: "''/tmp/x'' \<noteq> [] \<and> last ''/tmp/x'' \<noteq> CHR ''/'' \<and>
           ''hdfs://nn:8020/user/test'' \<noteq> [] \<and> last ''hdfs://nn:8020/user/test'' \<noteq> CHR ''/'' \<and>
           ''run42'' \<noteq> [] \<and> hd ''run42'' \<noteq> CHR ''/'' \<and> last ''run42'' \<noteq> CHR ''/''"
    by simp
  note t = sync_mirrors_scratch_dir[where scratch_root = "''/tmp/x''" and es = ?es and e = ?e
      and store_prefix = "''hdfs://nn:8020/user/test''" and run_id = "''run42''" and c = ?c
      and self = example_store and c' = "fst ?r" and tr = "fst (snd ?r)" and err = None
      and ds = "[''sub'', ''dir'']" and f = "''file.txt''"]
  from t p v w f h d
  have "Upload (''hdfs://nn:8020/user/test'' @ ''/'' @ ''run42'' @ rel_path ([''sub'', ''dir''] @ [''file.txt'']))
               (''/tmp/x'' @ rel_path ([''sub'', ''dir''] @ [''file.txt''])) True \<in> set (fst (snd ?r))"
    by blast
  then have "Upload ''hdfs://nn:8020/user/test/run42/sub/dir/file.txt'' ''/tmp/x/sub/dir/file.txt'' True
               \<in> set (fst (snd ?r))"
    by (simp add: rel_path_def)
  with h n show ?thesis by (intro conjI)
qed

text \<open>
  Claim C3 as stated fails on a run id that starts with a separator: \<open>posixpath.join\<close>
  drops the store prefix, and \<open>sub/dir/file.txt\<close> of the run \<open>/etc\<close> is uploaded to
  \<open>/etc/sub/dir/file.txt\<close>, outside the store.  Nor is the remote path
  \<open>store_prefix/run_id/sub/dir/file.txt\<close>, character for character, when the run id
  ends with a separator or is empty, or when the store prefix ends with one or is empty.
\<close>

theorem run_id_escapes_store:
  "remotes (fst (snd (fn nested_file (sync_fn ''/store'' example_store ''/etc'') ''/tmp/x'')))
     = [''/etc/sub/dir/file.txt''] \<and>
   remotes (fst (snd (fn nested_file (sync_fn ''/store'' example_store ''run42/'') ''/tmp/x'')))
     = [''/store/run42/sub/dir/file.txt''] \<and>
   remotes (fst (snd (fn nested_file (sync_fn ''/store'' example_store []) ''/tmp/x'')))
     = [''/store/sub/dir/file.txt''] \<and>
   remotes (fst (snd (fn nested_file (sync_fn ''/store/'' example_store ''run42'') ''/tmp/x'')))
     = [''/store/run42/sub/dir/file.txt''] \<and>
   remotes (fst (snd (fn nested_file (sync_fn [] example_store ''run42'') ''/tmp/x'')))
     = [''run42/sub/dir/file.txt'']"
  by code_simp

end
